theory Spec2Isabelle
  imports Main "HOL-Library.Word"
begin

section \<open>The concurrent counter harness (ThreadSafetyDemo.cpp)\<close>

text \<open>
  The program contrasts three counter classes, each incremented 1000 times by two
  threads.  The embedding has three layers:
  \<^item> the classes with their \<open>increment\<close> method as a function on the object
    (what one call does when nothing interleaves);
  \<^item> the thread body \<open>task\<close> of each \<open>runThreads\<close> function as a small-step
    function on a thread-local record (program point, loop variable \<open>i\<close>, and the
    register holding the value read by \<open>count++\<close>) and the shared counter;
  \<^item> \<open>runThreads\<close> and \<open>main\<close>, where the scheduler's choices are an explicit
    list of actors, so that "every run" is "every schedule".
\<close>

subsection \<open>C++ int, undefined behaviour, outcomes\<close>

text \<open>
  \<open>int\<close> is taken to be 32 bits wide, two's complement (read with \<open>sint\<close>).
  \<open>x++\<close> on a plain \<open>int\<close> holding \<open>INT_MAX\<close> is undefined behaviour: the
  model reports it as a fault.  On \<open>atomic<int>\<close> the same operation is defined
  and wraps around.
\<close>

type_synonym cint = "32 word"

definition INT_MAX :: cint where
  "INT_MAX = 2147483647"

datatype error = SignedOverflow

text \<open>
  \<open>Next s\<close>: the step was taken (the call returned) with new state \<open>s\<close>;
  \<open>Fault e\<close>: undefined behaviour was reached;
  \<open>Stuck\<close>: the chosen actor cannot move (not started, waiting for the mutex or
  in \<open>join\<close>, or finished), or the call has not returned under the given schedule.
\<close>

datatype 's result = Next 's | Fault error | Stuck

definition incr_int :: "cint \<Rightarrow> cint result" where
  "incr_int x = (if x = INT_MAX then Fault SignedOverflow else Next (x + 1))"

fun repeat :: "nat \<Rightarrow> ('s \<Rightarrow> 's result) \<Rightarrow> 's \<Rightarrow> 's result" where
  "repeat 0 f s = Next s"
| "repeat (Suc n) f s =
     (case f s of Next s' \<Rightarrow> repeat n f s' | Fault e \<Rightarrow> Fault e | Stuck \<Rightarrow> Stuck)"

subsection \<open>The three counter classes\<close>

text \<open>\<^verbatim>\<open>class UnsafeCounter { int count = 0; void increment() { count++; } };\<close>\<close>

record UnsafeCounter =
  count :: cint

definition UnsafeCounter_new :: UnsafeCounter where
  "UnsafeCounter_new = \<lparr>UnsafeCounter.count = 0\<rparr>"

definition UnsafeCounter_increment :: "UnsafeCounter \<Rightarrow> UnsafeCounter result" where
  "UnsafeCounter_increment c =
     (case incr_int (UnsafeCounter.count c) of
        Next v \<Rightarrow> Next (c\<lparr>UnsafeCounter.count := v\<rparr>)
      | Fault e \<Rightarrow> Fault e
      | Stuck \<Rightarrow> Stuck)"

text \<open>
  \<^verbatim>\<open>class SafeCounterOnlyMutex { int count = 0; mutex mtx;
    void increment() { lock_guard<mutex> lock(mtx); count++; } };\<close>
  The guard locks \<open>mtx\<close> on construction (waiting while it is held) and unlocks it
  when the scope is left.
\<close>

datatype mutex = Unlocked | Locked

record SafeCounterOnlyMutex =
  count :: cint
  mtx :: mutex

definition SafeCounterOnlyMutex_new :: SafeCounterOnlyMutex where
  "SafeCounterOnlyMutex_new = \<lparr>SafeCounterOnlyMutex.count = 0, mtx = Unlocked\<rparr>"

definition SafeCounterOnlyMutex_increment ::
    "SafeCounterOnlyMutex \<Rightarrow> SafeCounterOnlyMutex result" where
  "SafeCounterOnlyMutex_increment c =
     (if mtx c = Locked then Stuck
      else case incr_int (SafeCounterOnlyMutex.count c) of
             Next v \<Rightarrow> Next (c\<lparr>SafeCounterOnlyMutex.count := v, mtx := Unlocked\<rparr>)
           | Fault e \<Rightarrow> Fault e
           | Stuck \<Rightarrow> Stuck)"

text \<open>\<^verbatim>\<open>class SafeCounterAtomic { atomic<int> count{0}; void increment() { count++; } };\<close>\<close>

record SafeCounterAtomic =
  count :: cint

definition SafeCounterAtomic_new :: SafeCounterAtomic where
  "SafeCounterAtomic_new = \<lparr>SafeCounterAtomic.count = 0\<rparr>"

definition SafeCounterAtomic_increment :: "SafeCounterAtomic \<Rightarrow> SafeCounterAtomic" where
  "SafeCounterAtomic_increment c = c\<lparr>SafeCounterAtomic.count := SafeCounterAtomic.count c + 1\<rparr>"

subsection \<open>The thread body, one step at a time\<close>

text \<open>
  \<^verbatim>\<open>auto task = [&counter]() { for (int i = 0; i < 1000; ++i) { counter.increment(); } };\<close>
  Program points of a thread: before it is started, at the loop test, inside
  \<open>increment\<close> (the points each class uses), at \<open>++i\<close>, and after the body returned.
\<close>

datatype tid = T1 | T2

datatype actor = Main | Thread tid

datatype pc = NotStarted | LoopTest | Lock | Load | Store | Unlock | FetchAdd | LoopIncr | Finished

record worker =
  pc :: pc
  i :: cint
  reg :: cint

definition idle :: worker where
  "idle = \<lparr>pc = NotStarted, i = 0, reg = 0\<rparr>"

definition started :: worker where
  "started = \<lparr>pc = LoopTest, i = 0, reg = 0\<rparr>"

definition loop_test :: "pc \<Rightarrow> worker \<Rightarrow> worker" where
  "loop_test body w = w\<lparr>pc := (if sint (i w) < 1000 then body else Finished)\<rparr>"

definition loop_incr :: "worker \<Rightarrow> worker result" where
  "loop_incr w =
     (case incr_int (i w) of
        Next v \<Rightarrow> Next (w\<lparr>i := v, pc := LoopTest\<rparr>)
      | Fault e \<Rightarrow> Fault e
      | Stuck \<Rightarrow> Stuck)"

text \<open>
  \<open>UnsafeCounter\<close>: \<open>count++\<close> is a read of \<open>count\<close> followed by a write of the
  value read plus one; another thread may run between the two.
\<close>

definition UnsafeCounter_task_step ::
    "worker \<Rightarrow> UnsafeCounter \<Rightarrow> (worker \<times> UnsafeCounter) result" where
  "UnsafeCounter_task_step w c =
     (case pc w of
        LoopTest \<Rightarrow> Next (loop_test Load w, c)
      | Load \<Rightarrow> Next (w\<lparr>reg := UnsafeCounter.count c, pc := Store\<rparr>, c)
      | Store \<Rightarrow>
          (case incr_int (reg w) of
             Next v \<Rightarrow> Next (w\<lparr>pc := LoopIncr\<rparr>, c\<lparr>UnsafeCounter.count := v\<rparr>)
           | Fault e \<Rightarrow> Fault e
           | Stuck \<Rightarrow> Stuck)
      | LoopIncr \<Rightarrow>
          (case loop_incr w of
             Next w' \<Rightarrow> Next (w', c)
           | Fault e \<Rightarrow> Fault e
           | Stuck \<Rightarrow> Stuck)
      | _ \<Rightarrow> Stuck)"

text \<open>
  \<open>SafeCounterOnlyMutex\<close>: the guard's constructor takes the mutex (the thread
  waits while it is held), then the read and the write, then the guard's destructor
  releases it.
\<close>

definition SafeCounterOnlyMutex_task_step ::
    "worker \<Rightarrow> SafeCounterOnlyMutex \<Rightarrow> (worker \<times> SafeCounterOnlyMutex) result" where
  "SafeCounterOnlyMutex_task_step w c =
     (case pc w of
        LoopTest \<Rightarrow> Next (loop_test Lock w, c)
      | Lock \<Rightarrow>
          (if mtx c = Locked then Stuck
           else Next (w\<lparr>pc := Load\<rparr>, c\<lparr>mtx := Locked\<rparr>))
      | Load \<Rightarrow> Next (w\<lparr>reg := SafeCounterOnlyMutex.count c, pc := Store\<rparr>, c)
      | Store \<Rightarrow>
          (case incr_int (reg w) of
             Next v \<Rightarrow> Next (w\<lparr>pc := Unlock\<rparr>, c\<lparr>SafeCounterOnlyMutex.count := v\<rparr>)
           | Fault e \<Rightarrow> Fault e
           | Stuck \<Rightarrow> Stuck)
      | Unlock \<Rightarrow> Next (w\<lparr>pc := LoopIncr\<rparr>, c\<lparr>mtx := Unlocked\<rparr>)
      | LoopIncr \<Rightarrow>
          (case loop_incr w of
             Next w' \<Rightarrow> Next (w', c)
           | Fault e \<Rightarrow> Fault e
           | Stuck \<Rightarrow> Stuck)
      | _ \<Rightarrow> Stuck)"

text \<open>\<open>SafeCounterAtomic\<close>: \<open>count++\<close> on \<open>atomic<int>\<close> is one step.\<close>

definition SafeCounterAtomic_task_step ::
    "worker \<Rightarrow> SafeCounterAtomic \<Rightarrow> (worker \<times> SafeCounterAtomic) result" where
  "SafeCounterAtomic_task_step w c =
     (case pc w of
        LoopTest \<Rightarrow> Next (loop_test FetchAdd w, c)
      | FetchAdd \<Rightarrow> Next (w\<lparr>pc := LoopIncr\<rparr>, SafeCounterAtomic_increment c)
      | LoopIncr \<Rightarrow>
          (case loop_incr w of
             Next w' \<Rightarrow> Next (w', c)
           | Fault e \<Rightarrow> Fault e
           | Stuck \<Rightarrow> Stuck)
      | _ \<Rightarrow> Stuck)"

subsection \<open>runThreads: two threads and the joining caller\<close>

text \<open>
  \<^verbatim>\<open>thread t1(task); thread t2(task); t1.join(); t2.join();\<close>
  The three \<open>runThreads\<close> functions have this same text and differ in the class of
  \<open>counter\<close> only, so one step function takes the thread body as a parameter.
  \<open>t1.join()\<close> can be passed only when \<open>t1\<close> has finished.
\<close>

datatype run_pc = Spawn1 | Spawn2 | Join1 | Join2 | Returned

record 'c run =
  counter :: 'c
  rpc :: run_pc
  t1 :: worker
  t2 :: worker

definition enter :: "'c \<Rightarrow> 'c run" where
  "enter c = \<lparr>counter = c, rpc = Spawn1, t1 = idle, t2 = idle\<rparr>"

definition worker_of :: "tid \<Rightarrow> 'c run \<Rightarrow> worker" where
  "worker_of t s = (case t of T1 \<Rightarrow> t1 s | T2 \<Rightarrow> t2 s)"

definition runThreads_step ::
    "(worker \<Rightarrow> 'c \<Rightarrow> (worker \<times> 'c) result) \<Rightarrow> actor \<Rightarrow> 'c run \<Rightarrow> 'c run result" where
  "runThreads_step task a s =
     (case a of
        Main \<Rightarrow>
          (case rpc s of
             Spawn1 \<Rightarrow> Next (s\<lparr>t1 := started, rpc := Spawn2\<rparr>)
           | Spawn2 \<Rightarrow> Next (s\<lparr>t2 := started, rpc := Join1\<rparr>)
           | Join1 \<Rightarrow> (if pc (t1 s) = Finished then Next (s\<lparr>rpc := Join2\<rparr>) else Stuck)
           | Join2 \<Rightarrow> (if pc (t2 s) = Finished then Next (s\<lparr>rpc := Returned\<rparr>) else Stuck)
           | Returned \<Rightarrow> Stuck)
      | Thread T1 \<Rightarrow>
          (case task (t1 s) (counter s) of
             Next (w, c) \<Rightarrow> Next (s\<lparr>t1 := w, counter := c\<rparr>)
           | Fault e \<Rightarrow> Fault e
           | Stuck \<Rightarrow> Stuck)
      | Thread T2 \<Rightarrow>
          (case task (t2 s) (counter s) of
             Next (w, c) \<Rightarrow> Next (s\<lparr>t2 := w, counter := c\<rparr>)
           | Fault e \<Rightarrow> Fault e
           | Stuck \<Rightarrow> Stuck))"

fun exec :: "('a \<Rightarrow> 's \<Rightarrow> 's result) \<Rightarrow> 'a list \<Rightarrow> 's \<Rightarrow> 's result" where
  "exec step [] s = Next s"
| "exec step (a # as) s =
     (case step a s of Next s' \<Rightarrow> exec step as s' | Fault e \<Rightarrow> Fault e | Stuck \<Rightarrow> Stuck)"

text \<open>
  The number of calls of \<open>increment\<close> that thread \<open>t\<close> starts along a schedule:
  the steps it takes from the first program point of \<open>increment\<close>.
\<close>

fun calls ::
    "pc \<Rightarrow> (actor \<Rightarrow> 'c run \<Rightarrow> 'c run result) \<Rightarrow> tid \<Rightarrow> actor list \<Rightarrow> 'c run \<Rightarrow> nat" where
  "calls entry step t [] s = 0"
| "calls entry step t (a # as) s =
     (case step a s of
        Next s' \<Rightarrow>
          (if a = Thread t \<and> pc (worker_of t s) = entry then 1 else 0) + calls entry step t as s'
      | Fault e \<Rightarrow> 0
      | Stuck \<Rightarrow> 0)"

definition returned :: "'c run result \<Rightarrow> 'c result" where
  "returned r =
     (case r of
        Next s \<Rightarrow> (if rpc s = Returned then Next (counter s) else Stuck)
      | Fault e \<Rightarrow> Fault e
      | Stuck \<Rightarrow> Stuck)"

definition runThreadsUnsafe_step :: "actor \<Rightarrow> UnsafeCounter run \<Rightarrow> UnsafeCounter run result" where
  "runThreadsUnsafe_step = runThreads_step UnsafeCounter_task_step"

definition runThreadsSafe_step ::
    "actor \<Rightarrow> SafeCounterOnlyMutex run \<Rightarrow> SafeCounterOnlyMutex run result" where
  "runThreadsSafe_step = runThreads_step SafeCounterOnlyMutex_task_step"

definition runThreadsAtomic_step ::
    "actor \<Rightarrow> SafeCounterAtomic run \<Rightarrow> SafeCounterAtomic run result" where
  "runThreadsAtomic_step = runThreads_step SafeCounterAtomic_task_step"

text \<open>
  The functions take the counter by reference and return nothing; the model returns
  the counter as the call leaves it.
\<close>

definition runThreadsUnsafe :: "actor list \<Rightarrow> UnsafeCounter \<Rightarrow> UnsafeCounter result" where
  "runThreadsUnsafe sched c = returned (exec runThreadsUnsafe_step sched (enter c))"

definition runThreadsSafe ::
    "actor list \<Rightarrow> SafeCounterOnlyMutex \<Rightarrow> SafeCounterOnlyMutex result" where
  "runThreadsSafe sched c = returned (exec runThreadsSafe_step sched (enter c))"

definition runThreadsAtomic :: "actor list \<Rightarrow> SafeCounterAtomic \<Rightarrow> SafeCounterAtomic result" where
  "runThreadsAtomic sched c = returned (exec runThreadsAtomic_step sched (enter c))"

subsection \<open>main\<close>

text \<open>\<open>cout << n\<close> for an \<open>int\<close>: its decimal digits, with a minus sign if negative.\<close>

fun show_nat :: "nat \<Rightarrow> string" where
  "show_nat n =
     (if n < 10 then [''0123456789'' ! n]
      else show_nat (n div 10) @ [''0123456789'' ! (n mod 10)])"

definition show_int :: "int \<Rightarrow> string" where
  "show_int k = (if k < 0 then CHR ''-'' # show_nat (nat (- k)) else show_nat (nat k))"

definition banner :: string where
  "banner = ''--- C++ Concurrency & Thread Safety Demo ---''"

definition report :: "string \<Rightarrow> cint \<Rightarrow> string" where
  "report label v = label @ '' Value (Expected 2000): '' @ show_int (sint v)"

text \<open>
  \<open>main\<close> prints the banner, then for each class constructs the object, runs the
  two threads on it and prints its \<open>count\<close>; it returns 0.  The result is the list
  of lines written to \<open>cout\<close> (each \<open>endl\<close> ends one) and the exit code.  The three
  schedules are the scheduler's choices during the three calls.
\<close>

definition main :: "actor list \<Rightarrow> actor list \<Rightarrow> actor list \<Rightarrow> (string list \<times> int) result" where
  "main sched1 sched2 sched3 =
     (case runThreadsUnsafe sched1 UnsafeCounter_new of
        Next unsafeObj \<Rightarrow>
          (case runThreadsSafe sched2 SafeCounterOnlyMutex_new of
             Next safeObj \<Rightarrow>
               (case runThreadsAtomic sched3 SafeCounterAtomic_new of
                  Next atomicObj \<Rightarrow>
                    Next ([banner,
                           report ''Unsafe Counter'' (UnsafeCounter.count unsafeObj),
                           report ''Safe Counter (Mutex)'' (SafeCounterOnlyMutex.count safeObj),
                           report ''Safe Counter (Atomic)'' (SafeCounterAtomic.count atomicObj)],
                          0)
                | Fault e \<Rightarrow> Fault e
                | Stuck \<Rightarrow> Stuck)
           | Fault e \<Rightarrow> Fault e
           | Stuck \<Rightarrow> Stuck)
      | Fault e \<Rightarrow> Fault e
      | Stuck \<Rightarrow> Stuck)"

subsection \<open>Invariants of the runs\<close>

text \<open>
  The loop variable of a thread in terms of its program point: inside the loop
  body \<open>i < 1000\<close> has been tested, after the loop \<open>i = 1000\<close>.
\<close>

definition loop_inv :: "worker \<Rightarrow> bool" where
  "loop_inv w =
     (case pc w of
        NotStarted \<Rightarrow> True
      | LoopTest \<Rightarrow> 0 \<le> sint (i w) \<and> sint (i w) \<le> 1000
      | Finished \<Rightarrow> sint (i w) = 1000
      | _ \<Rightarrow> 0 \<le> sint (i w) \<and> sint (i w) < 1000)"

text \<open>Which threads exist and which have been joined, in terms of the caller's program point.\<close>

definition join_inv :: "run_pc \<Rightarrow> worker \<Rightarrow> worker \<Rightarrow> bool" where
  "join_inv p w1 w2 =
     (case p of
        Spawn1 \<Rightarrow> pc w1 = NotStarted \<and> pc w2 = NotStarted
      | Spawn2 \<Rightarrow> pc w1 \<noteq> NotStarted \<and> pc w2 = NotStarted
      | Join1 \<Rightarrow> pc w1 \<noteq> NotStarted \<and> pc w2 \<noteq> NotStarted
      | Join2 \<Rightarrow> pc w1 = Finished \<and> pc w2 \<noteq> NotStarted
      | Returned \<Rightarrow> pc w1 = Finished \<and> pc w2 = Finished)"

text \<open>The number of calls of \<open>increment\<close> whose write to \<open>count\<close> a thread has done.\<close>

definition completed :: "worker \<Rightarrow> int" where
  "completed w =
     (case pc w of
        NotStarted \<Rightarrow> 0
      | Unlock \<Rightarrow> sint (i w) + 1
      | LoopIncr \<Rightarrow> sint (i w) + 1
      | _ \<Rightarrow> sint (i w))"

text \<open>The number of calls of \<open>increment\<close> a thread has started, \<open>entry\<close> being the first
  program point of \<open>increment\<close>.\<close>

definition entered :: "pc \<Rightarrow> worker \<Rightarrow> int" where
  "entered entry w =
     (if pc w = NotStarted then 0
      else if pc w = LoopTest \<or> pc w = Finished \<or> pc w = entry then sint (i w)
      else sint (i w) + 1)"

text \<open>Between taking and releasing the mutex.\<close>

definition in_cs :: "worker \<Rightarrow> bool" where
  "in_cs w = (pc w = Load \<or> pc w = Store \<or> pc w = Unlock)"

definition inv_Unsafe :: "UnsafeCounter run \<Rightarrow> bool" where
  "inv_Unsafe s =
     (loop_inv (t1 s) \<and> loop_inv (t2 s) \<and> join_inv (rpc s) (t1 s) (t2 s)
      \<and> pc (t1 s) \<notin> {Lock, Unlock, FetchAdd} \<and> pc (t2 s) \<notin> {Lock, Unlock, FetchAdd}
      \<and> 0 \<le> sint (UnsafeCounter.count (counter s))
      \<and> sint (UnsafeCounter.count (counter s)) \<le> completed (t1 s) + completed (t2 s)
      \<and> (1 \<le> completed (t1 s) + completed (t2 s) \<longrightarrow> 1 \<le> sint (UnsafeCounter.count (counter s)))
      \<and> (pc (t1 s) = Store \<longrightarrow>
            0 \<le> sint (reg (t1 s)) \<and> sint (reg (t1 s)) \<le> completed (t1 s) + completed (t2 s))
      \<and> (pc (t2 s) = Store \<longrightarrow>
            0 \<le> sint (reg (t2 s)) \<and> sint (reg (t2 s)) \<le> completed (t1 s) + completed (t2 s)))"

definition inv_Safe :: "SafeCounterOnlyMutex run \<Rightarrow> bool" where
  "inv_Safe s =
     (loop_inv (t1 s) \<and> loop_inv (t2 s) \<and> join_inv (rpc s) (t1 s) (t2 s)
      \<and> pc (t1 s) \<noteq> FetchAdd \<and> pc (t2 s) \<noteq> FetchAdd
      \<and> sint (SafeCounterOnlyMutex.count (counter s)) = completed (t1 s) + completed (t2 s)
      \<and> (mtx (counter s) = Locked) = (in_cs (t1 s) \<or> in_cs (t2 s))
      \<and> \<not> (in_cs (t1 s) \<and> in_cs (t2 s))
      \<and> (pc (t1 s) = Store \<longrightarrow> reg (t1 s) = SafeCounterOnlyMutex.count (counter s))
      \<and> (pc (t2 s) = Store \<longrightarrow> reg (t2 s) = SafeCounterOnlyMutex.count (counter s)))"

definition inv_Atomic :: "SafeCounterAtomic run \<Rightarrow> bool" where
  "inv_Atomic s =
     (loop_inv (t1 s) \<and> loop_inv (t2 s) \<and> join_inv (rpc s) (t1 s) (t2 s)
      \<and> pc (t1 s) \<notin> {Lock, Load, Store, Unlock} \<and> pc (t2 s) \<notin> {Lock, Load, Store, Unlock}
      \<and> sint (SafeCounterAtomic.count (counter s)) = completed (t1 s) + completed (t2 s))"

text \<open>
  The number of steps a thread still takes: \<open>per\<close> steps for each round of the
  loop, \<open>pos\<close> the position of a program point within the round, and the final
  loop test.
\<close>

definition remaining :: "int \<Rightarrow> (pc \<Rightarrow> int) \<Rightarrow> worker \<Rightarrow> int" where
  "remaining per pos w =
     (case pc w of
        NotStarted \<Rightarrow> per * 1000 + 1
      | Finished \<Rightarrow> 0
      | _ \<Rightarrow> per * (1000 - sint (i w)) + 1 - pos (pc w))"

definition rank :: "run_pc \<Rightarrow> int" where
  "rank p = (case p of Spawn1 \<Rightarrow> 4 | Spawn2 \<Rightarrow> 3 | Join1 \<Rightarrow> 2 | Join2 \<Rightarrow> 1 | Returned \<Rightarrow> 0)"

definition steps_left :: "int \<Rightarrow> (pc \<Rightarrow> int) \<Rightarrow> 'c run \<Rightarrow> int" where
  "steps_left per pos s = remaining per pos (t1 s) + remaining per pos (t2 s) + rank (rpc s)"

definition pos_Unsafe :: "pc \<Rightarrow> int" where
  "pos_Unsafe p = (case p of Load \<Rightarrow> 1 | Store \<Rightarrow> 2 | LoopIncr \<Rightarrow> 3 | _ \<Rightarrow> 0)"

definition pos_Safe :: "pc \<Rightarrow> int" where
  "pos_Safe p =
     (case p of Lock \<Rightarrow> 1 | Load \<Rightarrow> 2 | Store \<Rightarrow> 3 | Unlock \<Rightarrow> 4 | LoopIncr \<Rightarrow> 5 | _ \<Rightarrow> 0)"

definition pos_Atomic :: "pc \<Rightarrow> int" where
  "pos_Atomic p = (case p of FetchAdd \<Rightarrow> 1 | LoopIncr \<Rightarrow> 2 | _ \<Rightarrow> 0)"

subsection \<open>Particular schedules\<close>

text \<open>
  \<open>solo per t\<close>: thread \<open>t\<close> runs its whole loop without interruption, \<open>per\<close>
  steps for each of the 1000 rounds and the last loop test.  \<open>sequential per\<close>:
  both threads are started, the first runs to its end, then the second, then both
  are joined.  \<open>lost_update\<close>, for \<open>UnsafeCounter\<close>: the first thread reads
  \<open>count\<close> (0), the second runs its whole loop, then the first writes 1 and
  runs the rest of its loop.
\<close>

definition solo :: "nat \<Rightarrow> tid \<Rightarrow> actor list" where
  "solo per t = concat (replicate 1000 (replicate per (Thread t))) @ [Thread t]"

definition sequential :: "nat \<Rightarrow> actor list" where
  "sequential per = [Main, Main] @ solo per T1 @ solo per T2 @ [Main, Main]"

definition lost_update :: "actor list" where
  "lost_update =
     [Main, Main, Thread T1, Thread T1] @ solo 4 T2 @ [Thread T1, Thread T1]
     @ concat (replicate 999 (replicate 4 (Thread T1))) @ [Thread T1, Main, Main]"

section \<open>Proofs\<close>

subsection \<open>Signed increment\<close>

lemma sint_succ: "sint (x::cint) \<noteq> 2147483647 \<Longrightarrow> sint (x + 1) = sint x + 1"
proof -
  assume a: "sint x \<noteq> 2147483647"
  have lt: "sint x < 2147483648" using sint_lt[of x] by simp
  have ge: "- 2147483648 \<le> sint x" using sint_ge[of x] by simp
  have "sint (x + 1) = signed_take_bit 31 (sint x + 1)"
    by (simp add: sint_word_ariths)
  also have "\<dots> = sint x + 1"
    by (rule signed_take_bit_int_eq_self) (use a lt ge in simp_all)
  finally show ?thesis .
qed

lemma INT_MAX_iff: "x = INT_MAX \<longleftrightarrow> sint x = 2147483647"
proof
  assume "x = INT_MAX" then show "sint x = 2147483647" by (simp add: INT_MAX_def)
next
  assume "sint x = 2147483647"
  then have "sint x = sint INT_MAX" by (simp add: INT_MAX_def)
  then show "x = INT_MAX" by (rule signed_word_eqI)
qed

lemma incr_int_Next_iff: "incr_int x = Next v \<longleftrightarrow> sint x \<noteq> 2147483647 \<and> v = x + 1"
  by (auto simp: incr_int_def INT_MAX_iff)

lemma incr_int_Fault_iff: "incr_int x = Fault e \<longleftrightarrow> sint x = 2147483647"
  by (cases e) (auto simp: incr_int_def INT_MAX_iff)

lemma incr_int_small: "sint x < 2147483647 \<Longrightarrow> incr_int x = Next (x + 1)"
  by (simp add: incr_int_Next_iff)

lemma sint_of_nat_small: "n \<le> 2147483647 \<Longrightarrow> sint (of_nat n :: cint) = int n"
proof -
  assume "n \<le> 2147483647"
  then have "signed_take_bit 31 (int n) = int n"
    by (intro signed_take_bit_int_eq_self) simp_all
  then show ?thesis by (simp add: signed_of_nat)
qed

lemma repeat_add:
  "repeat (m + n) f s =
     (case repeat m f s of Next s' \<Rightarrow> repeat n f s' | Fault e \<Rightarrow> Fault e | Stuck \<Rightarrow> Stuck)"
  by (induction m arbitrary: s) (simp_all split: result.split)

lemma repeat_UnsafeCounter_increment:
  "0 \<le> sint (UnsafeCounter.count c) \<Longrightarrow> sint (UnsafeCounter.count c) + int n \<le> 2147483647 \<Longrightarrow>
   repeat n UnsafeCounter_increment c = Next (c\<lparr>UnsafeCounter.count := UnsafeCounter.count c + of_nat n\<rparr>)"
proof (induction n arbitrary: c)
  case 0
  then show ?case by simp
next
  case (Suc n)
  let ?c = "c\<lparr>UnsafeCounter.count := UnsafeCounter.count c + 1\<rparr>"
  from Suc.prems have small: "sint (UnsafeCounter.count c) < 2147483647" by simp
  then have step: "UnsafeCounter_increment c = Next ?c"
    by (simp add: UnsafeCounter_increment_def incr_int_small)
  from small have "sint (UnsafeCounter.count ?c) = sint (UnsafeCounter.count c) + 1"
    by (simp add: sint_succ)
  with Suc.prems have "repeat n UnsafeCounter_increment ?c =
      Next (?c\<lparr>UnsafeCounter.count := UnsafeCounter.count ?c + of_nat n\<rparr>)"
    by (intro Suc.IH) simp_all
  with step show ?case by (simp add: add.assoc add.commute)
qed

lemma repeat_SafeCounterOnlyMutex_increment:
  "mtx c = Unlocked \<Longrightarrow> 0 \<le> sint (SafeCounterOnlyMutex.count c) \<Longrightarrow>
   sint (SafeCounterOnlyMutex.count c) + int n \<le> 2147483647 \<Longrightarrow>
   repeat n SafeCounterOnlyMutex_increment c =
     Next (c\<lparr>SafeCounterOnlyMutex.count := SafeCounterOnlyMutex.count c + of_nat n\<rparr>)"
proof (induction n arbitrary: c)
  case 0
  then show ?case by simp
next
  case (Suc n)
  let ?c = "c\<lparr>SafeCounterOnlyMutex.count := SafeCounterOnlyMutex.count c + 1\<rparr>"
  from Suc.prems have small: "sint (SafeCounterOnlyMutex.count c) < 2147483647" by simp
  with Suc.prems(1) have step: "SafeCounterOnlyMutex_increment c = Next ?c"
    by (simp add: SafeCounterOnlyMutex_increment_def incr_int_small)
  from small have "sint (SafeCounterOnlyMutex.count ?c) = sint (SafeCounterOnlyMutex.count c) + 1"
    by (simp add: sint_succ)
  with Suc.prems have "repeat n SafeCounterOnlyMutex_increment ?c =
      Next (?c\<lparr>SafeCounterOnlyMutex.count := SafeCounterOnlyMutex.count ?c + of_nat n\<rparr>)"
    by (intro Suc.IH) simp_all
  with step show ?case by (simp add: add.assoc add.commute)
qed

lemma funpow_SafeCounterAtomic_increment:
  "(SafeCounterAtomic_increment ^^ n) c =
     c\<lparr>SafeCounterAtomic.count := SafeCounterAtomic.count c + of_nat n\<rparr>"
  by (induction n arbitrary: c) (simp_all add: SafeCounterAtomic_increment_def funpow_swap1 add.assoc add.commute)

subsection \<open>A call of increment that nothing interrupts\<close>

text \<open>
  The steps a thread takes inside \<open>increment\<close>, run one after the other with no
  step of the other thread in between, compute what the method does as a whole.
\<close>

lemma UnsafeCounter_increment_uninterrupted:
  assumes "pc w = Load"
  shows "repeat 2 (\<lambda>(w, c). UnsafeCounter_task_step w c) (w, c) =
     (case UnsafeCounter_increment c of
        Next c' \<Rightarrow> Next (w\<lparr>reg := UnsafeCounter.count c, pc := LoopIncr\<rparr>, c')
      | Fault e \<Rightarrow> Fault e
      | Stuck \<Rightarrow> Stuck)"
  using assms
  by (simp add: eval_nat_numeral UnsafeCounter_task_step_def UnsafeCounter_increment_def
      incr_int_def)

lemma SafeCounterOnlyMutex_increment_uninterrupted:
  assumes "pc w = Lock"
  shows "repeat 4 (\<lambda>(w, c). SafeCounterOnlyMutex_task_step w c) (w, c) =
     (case SafeCounterOnlyMutex_increment c of
        Next c' \<Rightarrow> Next (w\<lparr>reg := SafeCounterOnlyMutex.count c, pc := LoopIncr\<rparr>, c')
      | Fault e \<Rightarrow> Fault e
      | Stuck \<Rightarrow> Stuck)"
  using assms
  by (simp add: eval_nat_numeral SafeCounterOnlyMutex_task_step_def
      SafeCounterOnlyMutex_increment_def incr_int_def)

lemma SafeCounterAtomic_increment_uninterrupted:
  assumes "pc w = FetchAdd"
  shows "repeat 1 (\<lambda>(w, c). SafeCounterAtomic_task_step w c) (w, c) =
     Next (w\<lparr>pc := LoopIncr\<rparr>, SafeCounterAtomic_increment c)"
  using assms by (simp add: SafeCounterAtomic_task_step_def)

subsection \<open>Runs and invariants in general\<close>

lemma exec_append:
  "exec step (xs @ ys) s =
     (case exec step xs s of Next s' \<Rightarrow> exec step ys s' | Fault e \<Rightarrow> Fault e | Stuck \<Rightarrow> Stuck)"
  by (induction xs arbitrary: s) (simp_all split: result.split)

lemma exec_invariant:
  assumes step: "\<And>a s s'. P s \<Longrightarrow> step a s = Next s' \<Longrightarrow> P s'"
  shows "P s \<Longrightarrow> exec step sched s = Next s' \<Longrightarrow> P s'"
proof (induction sched arbitrary: s)
  case Nil
  then show ?case by simp
next
  case (Cons a sched)
  then show ?case by (auto split: result.splits dest: step)
qed

lemma exec_no_fault:
  assumes step: "\<And>a s s'. P s \<Longrightarrow> step a s = Next s' \<Longrightarrow> P s'"
    and safe: "\<And>a s e. P s \<Longrightarrow> step a s \<noteq> Fault e"
  shows "P s \<Longrightarrow> exec step sched s \<noteq> Fault e"
proof (induction sched arbitrary: s)
  case Nil
  then show ?case by simp
next
  case (Cons a sched)
  then show ?case using safe [of s a] by (auto split: result.splits dest: step)
qed

lemma incr_int_sint: "incr_int x = Next v \<Longrightarrow> sint v = sint x + 1"
  by (simp add: incr_int_Next_iff sint_succ)

lemma inv_Atomic_enter: "inv_Atomic (enter SafeCounterAtomic_new)"
  by (simp add: inv_Atomic_def enter_def idle_def loop_inv_def join_inv_def completed_def
      SafeCounterAtomic_new_def)

lemma runThreads_step_T1:
  "runThreads_step task (Thread T1) s = Next s' \<longleftrightarrow>
     (\<exists>w c. task (t1 s) (counter s) = Next (w, c) \<and> s' = s\<lparr>t1 := w, counter := c\<rparr>)"
  by (auto simp: runThreads_step_def split: result.splits)

lemma runThreads_step_T2:
  "runThreads_step task (Thread T2) s = Next s' \<longleftrightarrow>
     (\<exists>w c. task (t2 s) (counter s) = Next (w, c) \<and> s' = s\<lparr>t2 := w, counter := c\<rparr>)"
  by (auto simp: runThreads_step_def split: result.splits)

lemma runThreads_step_Main:
  "runThreads_step task Main s = Next s' \<longleftrightarrow>
     (rpc s = Spawn1 \<and> s' = s\<lparr>t1 := started, rpc := Spawn2\<rparr>
      \<or> rpc s = Spawn2 \<and> s' = s\<lparr>t2 := started, rpc := Join1\<rparr>
      \<or> rpc s = Join1 \<and> pc (t1 s) = Finished \<and> s' = s\<lparr>rpc := Join2\<rparr>
      \<or> rpc s = Join2 \<and> pc (t2 s) = Finished \<and> s' = s\<lparr>rpc := Returned\<rparr>)"
  by (cases "rpc s") (auto simp: runThreads_step_def)

lemma join_inv_t1:
  "join_inv p w1 w2 \<Longrightarrow> pc w1 \<noteq> NotStarted \<Longrightarrow> pc w1 \<noteq> Finished \<Longrightarrow> pc w1' \<noteq> NotStarted
   \<Longrightarrow> join_inv p w1' w2"
  by (cases p) (simp_all add: join_inv_def)

lemma join_inv_t2:
  "join_inv p w1 w2 \<Longrightarrow> pc w2 \<noteq> NotStarted \<Longrightarrow> pc w2 \<noteq> Finished \<Longrightarrow> pc w2' \<noteq> NotStarted
   \<Longrightarrow> join_inv p w1 w2'"
  by (cases p) (simp_all add: join_inv_def)

lemma loop_inv_completed: "loop_inv w \<Longrightarrow> 0 \<le> completed w \<and> completed w \<le> 1000"
  by (cases "pc w") (simp_all add: loop_inv_def completed_def)

lemma loop_inv_Finished: "loop_inv w \<Longrightarrow> pc w = Finished \<Longrightarrow> completed w = 1000"
  by (simp add: loop_inv_def completed_def)

lemma loop_incr_Next:
  "loop_incr w = Next w' \<Longrightarrow> pc w' = LoopTest \<and> sint (i w') = sint (i w) + 1 \<and> reg w' = reg w"
  by (auto simp: loop_incr_def split: result.splits dest: incr_int_sint)

lemma loop_incr_Fault: "loop_incr w = Fault e \<Longrightarrow> sint (i w) = 2147483647"
  by (auto simp: loop_incr_def incr_int_Fault_iff split: result.splits)

lemma Atomic_task_step:
  assumes "SafeCounterAtomic_task_step w c = Next (w', c')" and "loop_inv w"
    and "sint (SafeCounterAtomic.count c) < 2147483647"
  shows "pc w \<noteq> NotStarted \<and> pc w \<noteq> Finished \<and> pc w' \<noteq> NotStarted
    \<and> loop_inv w'
    \<and> pc w' \<notin> {Lock, Load, Store, Unlock}
    \<and> sint (SafeCounterAtomic.count c') - completed w' = sint (SafeCounterAtomic.count c) - completed w
    \<and> remaining 3 pos_Atomic w' = remaining 3 pos_Atomic w - 1
    \<and> entered FetchAdd w' = entered FetchAdd w + (if pc w = FetchAdd then 1 else 0)"
proof (cases "pc w")
  case LoopTest
  with assms(1) have "w' = loop_test FetchAdd w" "c' = c"
    by (auto simp: SafeCounterAtomic_task_step_def)
  with LoopTest assms(2) show ?thesis
    by (simp add: loop_test_def loop_inv_def completed_def remaining_def pos_Atomic_def entered_def)
next
  case FetchAdd
  with assms(1) have "w' = w\<lparr>pc := LoopIncr\<rparr>" "c' = SafeCounterAtomic_increment c"
    by (auto simp: SafeCounterAtomic_task_step_def)
  with FetchAdd assms(2,3) show ?thesis
    by (simp add: loop_inv_def completed_def remaining_def pos_Atomic_def entered_def
        SafeCounterAtomic_increment_def sint_succ)
next
  case LoopIncr
  with assms(1) have "loop_incr w = Next w'" "c' = c"
    by (auto simp: SafeCounterAtomic_task_step_def split: result.splits)
  with LoopIncr assms(2) loop_incr_Next [of w w'] show ?thesis
    by (simp add: loop_inv_def completed_def remaining_def pos_Atomic_def entered_def)
qed (use assms in \<open>simp_all add: SafeCounterAtomic_task_step_def\<close>)

lemma Main_step:
  assumes "runThreads_step task Main s = Next s'" and "join_inv (rpc s) (t1 s) (t2 s)"
  shows "counter s' = counter s" and "join_inv (rpc s') (t1 s') (t2 s')"
    and "rank (rpc s') = rank (rpc s) - 1"
    and "t1 s' = t1 s \<or> pc (t1 s) = NotStarted \<and> t1 s' = started"
    and "t2 s' = t2 s \<or> pc (t2 s) = NotStarted \<and> t2 s' = started"
  using assms unfolding runThreads_step_Main
  by (auto simp: join_inv_def rank_def started_def)

lemma started_simps:
  "pc started = LoopTest" "loop_inv started" "completed started = 0" "entered e started = 0"
  "\<not> in_cs started"
  by (simp_all add: started_def loop_inv_def completed_def entered_def in_cs_def)

lemma NotStarted_simps:
  "pc w = NotStarted \<Longrightarrow> completed w = 0"
  "pc w = NotStarted \<Longrightarrow> entered e w = 0"
  "pc w = NotStarted \<Longrightarrow> \<not> in_cs w"
  by (simp_all add: completed_def entered_def in_cs_def)

lemma remaining_started:
  "pos LoopTest = 0 \<Longrightarrow> remaining per pos started = per * 1000 + 1"
  "pc w = NotStarted \<Longrightarrow> remaining per pos w = per * 1000 + 1"
  by (simp_all add: remaining_def started_def)

lemma inv_Atomic_bound:
  "inv_Atomic s \<Longrightarrow> 0 \<le> sint (SafeCounterAtomic.count (counter s))
     \<and> sint (SafeCounterAtomic.count (counter s)) \<le> 2000"
  using loop_inv_completed [of "t1 s"] loop_inv_completed [of "t2 s"]
  by (simp add: inv_Atomic_def)

lemma inv_Atomic_step:
  assumes "inv_Atomic s" and "runThreadsAtomic_step a s = Next s'"
  shows "inv_Atomic s'"
proof (cases a)
  case Main
  from assms have j: "join_inv (rpc s) (t1 s) (t2 s)" by (simp add: inv_Atomic_def)
  from assms(2) have st: "runThreads_step SafeCounterAtomic_task_step Main s = Next s'"
    by (simp add: runThreadsAtomic_step_def Main)
  from Main_step [OF st j] assms(1) show ?thesis
    by (auto simp: inv_Atomic_def started_simps NotStarted_simps)
next
  case (Thread t)
  from inv_Atomic_bound [OF assms(1)]
  have small: "sint (SafeCounterAtomic.count (counter s)) < 2147483647" by simp
  show ?thesis
  proof (cases t)
    case T1
    with Thread assms(2) obtain w c
      where st: "SafeCounterAtomic_task_step (t1 s) (counter s) = Next (w, c)"
        and s': "s' = s\<lparr>t1 := w, counter := c\<rparr>"
      by (auto simp: runThreadsAtomic_step_def runThreads_step_T1)
    from assms(1) have l: "loop_inv (t1 s)" by (simp add: inv_Atomic_def)
    note f = Atomic_task_step [OF st l small]
    from f assms(1) have "join_inv (rpc s) (t1 s') (t2 s')"
      using join_inv_t1 [of "rpc s" "t1 s" "t2 s" w] by (simp add: inv_Atomic_def s')
    with f assms(1) show ?thesis
      by (auto simp: inv_Atomic_def s')
  next
    case T2
    with Thread assms(2) obtain w c
      where st: "SafeCounterAtomic_task_step (t2 s) (counter s) = Next (w, c)"
        and s': "s' = s\<lparr>t2 := w, counter := c\<rparr>"
      by (auto simp: runThreadsAtomic_step_def runThreads_step_T2)
    from assms(1) have l: "loop_inv (t2 s)" by (simp add: inv_Atomic_def)
    note f = Atomic_task_step [OF st l small]
    from f assms(1) have "join_inv (rpc s) (t1 s') (t2 s')"
      using join_inv_t2 [of "rpc s" "t1 s" "t2 s" w] by (simp add: inv_Atomic_def s')
    with f assms(1) show ?thesis
      by (auto simp: inv_Atomic_def s')
  qed
qed

lemma runThreads_step_Main_no_fault: "runThreads_step task Main s \<noteq> Fault e"
  by (cases "rpc s") (simp_all add: runThreads_step_def)

lemma runThreads_step_T1_Fault:
  "runThreads_step task (Thread T1) s = Fault e \<longleftrightarrow> task (t1 s) (counter s) = Fault e"
  by (auto simp: runThreads_step_def split: result.splits)

lemma runThreads_step_T2_Fault:
  "runThreads_step task (Thread T2) s = Fault e \<longleftrightarrow> task (t2 s) (counter s) = Fault e"
  by (auto simp: runThreads_step_def split: result.splits)

lemma loop_incr_progress: "sint (i w) < 1000 \<Longrightarrow> \<exists>w'. loop_incr w = Next w'"
  by (simp add: loop_incr_def incr_int_small)

lemma Atomic_task_no_fault: "loop_inv w \<Longrightarrow> SafeCounterAtomic_task_step w c \<noteq> Fault e"
  by (cases "pc w")
    (auto simp: SafeCounterAtomic_task_step_def loop_inv_def split: result.splits
      dest: loop_incr_Fault)

lemma Atomic_task_progress:
  assumes "loop_inv w" and "pc w = LoopTest \<or> pc w = FetchAdd \<or> pc w = LoopIncr"
  shows "\<exists>w' c'. SafeCounterAtomic_task_step w c = Next (w', c')"
proof -
  from assms(2) consider "pc w = LoopTest" | "pc w = FetchAdd" | "pc w = LoopIncr" by blast
  then show ?thesis
  proof cases
    case 3
    with assms(1) obtain w' where "loop_incr w = Next w'"
      using loop_incr_progress [of w] by (auto simp: loop_inv_def)
    with 3 show ?thesis by (simp add: SafeCounterAtomic_task_step_def)
  qed (simp_all add: SafeCounterAtomic_task_step_def)
qed

lemma Atomic_no_fault: "inv_Atomic s \<Longrightarrow> runThreadsAtomic_step a s \<noteq> Fault e"
proof (cases a)
  case Main
  then show ?thesis by (simp add: runThreadsAtomic_step_def runThreads_step_Main_no_fault)
next
  case (Thread t)
  assume "inv_Atomic s"
  then have "loop_inv (t1 s)" "loop_inv (t2 s)" by (simp_all add: inv_Atomic_def)
  with Thread show ?thesis
    by (cases t)
      (simp_all add: runThreadsAtomic_step_def runThreads_step_T1_Fault runThreads_step_T2_Fault
        Atomic_task_no_fault)
qed

lemma runThreads_step_T1_progress:
  "task (t1 s) (counter s) = Next (w, c) \<Longrightarrow> \<exists>a s'. runThreads_step task a s = Next s'"
  by (rule exI [of _ "Thread T1"]) (simp add: runThreads_step_T1)

lemma runThreads_step_T2_progress:
  "task (t2 s) (counter s) = Next (w, c) \<Longrightarrow> \<exists>a s'. runThreads_step task a s = Next s'"
  by (rule exI [of _ "Thread T2"]) (simp add: runThreads_step_T2)

lemma runThreads_step_Main_progress:
  "rpc s = Spawn1 \<or> rpc s = Spawn2 \<or> rpc s = Join1 \<and> pc (t1 s) = Finished
     \<or> rpc s = Join2 \<and> pc (t2 s) = Finished
   \<Longrightarrow> \<exists>a s'. runThreads_step task a s = Next s'"
  by (rule exI [of _ Main]) (auto simp: runThreads_step_Main)

lemma Atomic_progress:
  assumes "inv_Atomic s" and "rpc s \<noteq> Returned"
  shows "\<exists>a s'. runThreadsAtomic_step a s = Next s'"
proof -
  from assms(1) have l: "loop_inv (t1 s)" "loop_inv (t2 s)"
    and j: "join_inv (rpc s) (t1 s) (t2 s)"
    and p1: "pc (t1 s) \<notin> {Lock, Load, Store, Unlock}"
    and p2: "pc (t2 s) \<notin> {Lock, Load, Store, Unlock}"
    by (simp_all add: inv_Atomic_def)
  show ?thesis
  proof (cases "rpc s = Spawn1 \<or> rpc s = Spawn2 \<or> rpc s = Join1 \<and> pc (t1 s) = Finished
     \<or> rpc s = Join2 \<and> pc (t2 s) = Finished")
    case True
    then show ?thesis
      unfolding runThreadsAtomic_step_def by (rule runThreads_step_Main_progress)
  next
    case False
    with assms(2) consider "rpc s = Join1" "pc (t1 s) \<noteq> Finished"
      | "rpc s = Join2" "pc (t2 s) \<noteq> Finished"
      by (cases "rpc s") auto
    then show ?thesis
    proof cases
      case 1
      with j p1 have "pc (t1 s) = LoopTest \<or> pc (t1 s) = FetchAdd \<or> pc (t1 s) = LoopIncr"
        by (cases "pc (t1 s)") (simp_all add: join_inv_def)
      from Atomic_task_progress [OF l(1) this, of "counter s"] show ?thesis
        unfolding runThreadsAtomic_step_def by (auto intro: runThreads_step_T1_progress)
    next
      case 2
      with j p2 have "pc (t2 s) = LoopTest \<or> pc (t2 s) = FetchAdd \<or> pc (t2 s) = LoopIncr"
        by (cases "pc (t2 s)") (simp_all add: join_inv_def)
      from Atomic_task_progress [OF l(2) this, of "counter s"] show ?thesis
        unfolding runThreadsAtomic_step_def by (auto intro: runThreads_step_T2_progress)
    qed
  qed
qed

lemma Atomic_steps_left:
  assumes "inv_Atomic s" and "runThreadsAtomic_step a s = Next s'"
  shows "steps_left 3 pos_Atomic s' = steps_left 3 pos_Atomic s - 1"
proof (cases a)
  case Main
  from assms have j: "join_inv (rpc s) (t1 s) (t2 s)" by (simp add: inv_Atomic_def)
  from assms(2) have st: "runThreads_step SafeCounterAtomic_task_step Main s = Next s'"
    by (simp add: runThreadsAtomic_step_def Main)
  have "pos_Atomic LoopTest = 0" by (simp add: pos_Atomic_def)
  with Main_step [OF st j] show ?thesis
    by (auto simp: steps_left_def remaining_started)
next
  case (Thread t)
  from inv_Atomic_bound [OF assms(1)]
  have small: "sint (SafeCounterAtomic.count (counter s)) < 2147483647" by simp
  from assms(1) have l: "loop_inv (t1 s)" "loop_inv (t2 s)" by (simp_all add: inv_Atomic_def)
  show ?thesis
  proof (cases t)
    case T1
    with Thread assms(2) obtain w c
      where st: "SafeCounterAtomic_task_step (t1 s) (counter s) = Next (w, c)"
        and s': "s' = s\<lparr>t1 := w, counter := c\<rparr>"
      by (auto simp: runThreadsAtomic_step_def runThreads_step_T1)
    from Atomic_task_step [OF st l(1) small] show ?thesis
      by (simp add: steps_left_def s')
  next
    case T2
    with Thread assms(2) obtain w c
      where st: "SafeCounterAtomic_task_step (t2 s) (counter s) = Next (w, c)"
        and s': "s' = s\<lparr>t2 := w, counter := c\<rparr>"
      by (auto simp: runThreadsAtomic_step_def runThreads_step_T2)
    from Atomic_task_step [OF st l(2) small] show ?thesis
      by (simp add: steps_left_def s')
  qed
qed

lemma Atomic_entered:
  assumes "inv_Atomic s" and "runThreadsAtomic_step a s = Next s'"
  shows "entered FetchAdd (worker_of t s') =
     entered FetchAdd (worker_of t s) + (if a = Thread t \<and> pc (worker_of t s) = FetchAdd then 1 else 0)"
proof (cases a)
  case Main
  from assms have j: "join_inv (rpc s) (t1 s) (t2 s)" by (simp add: inv_Atomic_def)
  from assms(2) have st: "runThreads_step SafeCounterAtomic_task_step Main s = Next s'"
    by (simp add: runThreadsAtomic_step_def Main)
  from Main_step [OF st j] Main show ?thesis
    by (cases t) (auto simp: worker_of_def started_simps NotStarted_simps)
next
  case (Thread u)
  from inv_Atomic_bound [OF assms(1)]
  have small: "sint (SafeCounterAtomic.count (counter s)) < 2147483647" by simp
  from assms(1) have l: "loop_inv (t1 s)" "loop_inv (t2 s)" by (simp_all add: inv_Atomic_def)
  show ?thesis
  proof (cases u)
    case T1
    with Thread assms(2) obtain w c
      where st: "SafeCounterAtomic_task_step (t1 s) (counter s) = Next (w, c)"
        and s': "s' = s\<lparr>t1 := w, counter := c\<rparr>"
      by (auto simp: runThreadsAtomic_step_def runThreads_step_T1)
    from Atomic_task_step [OF st l(1) small] Thread T1 show ?thesis
      by (cases t) (simp_all add: worker_of_def s')
  next
    case T2
    with Thread assms(2) obtain w c
      where st: "SafeCounterAtomic_task_step (t2 s) (counter s) = Next (w, c)"
        and s': "s' = s\<lparr>t2 := w, counter := c\<rparr>"
      by (auto simp: runThreadsAtomic_step_def runThreads_step_T2)
    from Atomic_task_step [OF st l(2) small] Thread T2 show ?thesis
      by (cases t) (simp_all add: worker_of_def s')
  qed
qed

lemma exec_steps:
  assumes pres: "\<And>a s s'. P s \<Longrightarrow> step a s = Next s' \<Longrightarrow> P s'"
    and dec: "\<And>a s s'. P s \<Longrightarrow> step a s = Next s' \<Longrightarrow> m s' = m s - (1::int)"
  shows "P s \<Longrightarrow> exec step sched s = Next s' \<Longrightarrow> m s' = m s - int (length sched)"
proof (induction sched arbitrary: s)
  case Nil
  then show ?case by simp
next
  case (Cons a sched)
  from Cons.prems(2) obtain s1 where s1: "step a s = Next s1" "exec step sched s1 = Next s'"
    by (auto split: result.splits)
  from pres [OF Cons.prems(1) s1(1)] s1(2) have "m s' = m s1 - int (length sched)"
    by (rule Cons.IH)
  with dec [OF Cons.prems(1) s1(1)] show ?case by simp
qed

lemma exec_completes:
  assumes pres: "\<And>a s s'. P s \<Longrightarrow> step a s = Next s' \<Longrightarrow> P s'"
    and dec: "\<And>a s s'. P s \<Longrightarrow> step a s = Next s' \<Longrightarrow> m s' = m s - (1::int)"
    and prog: "\<And>s. P s \<Longrightarrow> \<not> final s \<Longrightarrow> \<exists>a s'. step a s = Next s'"
    and nonneg: "\<And>s. P s \<Longrightarrow> 0 \<le> m s"
  shows "P s \<Longrightarrow> \<exists>sched s'. exec step sched s = Next s' \<and> final s'"
proof (induction "nat (m s)" arbitrary: s rule: less_induct)
  case less
  show ?case
  proof (cases "final s")
    case True
    then have "exec step [] s = Next s \<and> final s" by simp
    then show ?thesis by blast
  next
    case False
    from prog [OF less.prems False] obtain a s1 where s1: "step a s = Next s1" by blast
    from pres [OF less.prems s1] have P1: "P s1" .
    from dec [OF less.prems s1] nonneg [OF P1] have "nat (m s1) < nat (m s)" by simp
    from less.hyps [OF this P1] obtain sched s' where "exec step sched s1 = Next s'" "final s'"
      by blast
    with s1 have "exec step (a # sched) s = Next s' \<and> final s'" by simp
    then show ?thesis by blast
  qed
qed

lemma exec_calls:
  assumes pres: "\<And>a s s'. P s \<Longrightarrow> step a s = Next s' \<Longrightarrow> P s'"
    and ent: "\<And>a s s'. P s \<Longrightarrow> step a s = Next s' \<Longrightarrow>
       entered entry (worker_of t s') =
       entered entry (worker_of t s) + (if a = Thread t \<and> pc (worker_of t s) = entry then 1 else 0)"
  shows "P s \<Longrightarrow> exec step sched s = Next s' \<Longrightarrow>
    int (calls entry step t sched s) = entered entry (worker_of t s') - entered entry (worker_of t s)"
proof (induction sched arbitrary: s)
  case Nil
  then show ?case by simp
next
  case (Cons a sched)
  from Cons.prems(2) obtain s1 where s1: "step a s = Next s1" "exec step sched s1 = Next s'"
    by (auto split: result.splits)
  from pres [OF Cons.prems(1) s1(1)] s1(2)
  have "int (calls entry step t sched s1) = entered entry (worker_of t s') - entered entry (worker_of t s1)"
    by (rule Cons.IH)
  with ent [OF Cons.prems(1) s1(1)] s1(1) show ?case by simp
qed

lemma Atomic_steps_left_nonneg: "inv_Atomic s \<Longrightarrow> 0 \<le> steps_left 3 pos_Atomic s"
proof -
  have r: "0 \<le> remaining 3 pos_Atomic w" if "loop_inv w" for w
    using that by (cases "pc w") (simp_all add: remaining_def loop_inv_def pos_Atomic_def)
  have "0 \<le> rank p" for p by (cases p) (simp_all add: rank_def)
  from this [of "rpc s"] show "inv_Atomic s \<Longrightarrow> 0 \<le> steps_left 3 pos_Atomic s"
    using r [of "t1 s"] r [of "t2 s"] by (simp add: steps_left_def inv_Atomic_def)
qed

subsection \<open>UnsafeCounter\<close>

lemma Unsafe_task_step:
  assumes "UnsafeCounter_task_step w c = Next (w', c')" and "loop_inv w"
  shows "pc w \<noteq> NotStarted \<and> pc w \<noteq> Finished \<and> pc w' \<noteq> NotStarted
    \<and> loop_inv w'
    \<and> pc w' \<notin> {Lock, Unlock, FetchAdd}
    \<and> remaining 4 pos_Unsafe w' = remaining 4 pos_Unsafe w - 1
    \<and> entered Load w' = entered Load w + (if pc w = Load then 1 else 0)
    \<and> (pc w = Store \<and> sint (UnsafeCounter.count c') = sint (reg w) + 1
          \<and> completed w' = completed w + 1 \<and> pc w' \<noteq> Store
        \<or> pc w \<noteq> Store \<and> c' = c \<and> completed w' = completed w
          \<and> (pc w' = Store \<longrightarrow> reg w' = UnsafeCounter.count c))"
proof (cases "pc w")
  case LoopTest
  with assms(1) have "w' = loop_test Load w" "c' = c"
    by (auto simp: UnsafeCounter_task_step_def)
  with LoopTest assms(2) show ?thesis
    by (simp add: loop_test_def loop_inv_def completed_def remaining_def pos_Unsafe_def entered_def)
next
  case Load
  with assms(1) have "w' = w\<lparr>reg := UnsafeCounter.count c, pc := Store\<rparr>" "c' = c"
    by (auto simp: UnsafeCounter_task_step_def)
  with Load assms(2) show ?thesis
    by (simp add: loop_inv_def completed_def remaining_def pos_Unsafe_def entered_def)
next
  case Store
  with assms(1) obtain v where "incr_int (reg w) = Next v"
    "w' = w\<lparr>pc := LoopIncr\<rparr>" "c' = c\<lparr>UnsafeCounter.count := v\<rparr>"
    by (auto simp: UnsafeCounter_task_step_def split: result.splits)
  with Store assms(2) incr_int_sint [of "reg w" v] show ?thesis
    by (simp add: loop_inv_def completed_def remaining_def pos_Unsafe_def entered_def)
next
  case LoopIncr
  with assms(1) have "loop_incr w = Next w'" "c' = c"
    by (auto simp: UnsafeCounter_task_step_def split: result.splits)
  with LoopIncr assms(2) loop_incr_Next [of w w'] show ?thesis
    by (simp add: loop_inv_def completed_def remaining_def pos_Unsafe_def entered_def)
qed (use assms in \<open>simp_all add: UnsafeCounter_task_step_def\<close>)

lemma Unsafe_task_no_fault:
  "loop_inv w \<Longrightarrow> (pc w = Store \<longrightarrow> sint (reg w) < 2147483647) \<Longrightarrow>
   UnsafeCounter_task_step w c \<noteq> Fault e"
  by (cases "pc w")
    (auto simp: UnsafeCounter_task_step_def loop_inv_def incr_int_Fault_iff split: result.splits
      dest: loop_incr_Fault)

lemma Unsafe_task_progress:
  assumes "loop_inv w" and "pc w = LoopTest \<or> pc w = Load \<or> pc w = Store \<or> pc w = LoopIncr"
    and "pc w = Store \<longrightarrow> sint (reg w) < 2147483647"
  shows "\<exists>w' c'. UnsafeCounter_task_step w c = Next (w', c')"
proof -
  from assms(2) consider "pc w = LoopTest" | "pc w = Load" | "pc w = Store" | "pc w = LoopIncr"
    by blast
  then show ?thesis
  proof cases
    case 3
    with assms(3) show ?thesis
      by (simp add: UnsafeCounter_task_step_def incr_int_small)
  next
    case 4
    with assms(1) obtain w' where "loop_incr w = Next w'"
      using loop_incr_progress [of w] by (auto simp: loop_inv_def)
    with 4 show ?thesis by (simp add: UnsafeCounter_task_step_def)
  qed (simp_all add: UnsafeCounter_task_step_def)
qed

lemma inv_Unsafe_enter: "inv_Unsafe (enter UnsafeCounter_new)"
  by (simp add: inv_Unsafe_def enter_def idle_def loop_inv_def join_inv_def completed_def
      UnsafeCounter_new_def)

lemma inv_Unsafe_bound:
  assumes "inv_Unsafe s"
  shows "0 \<le> sint (UnsafeCounter.count (counter s))"
    and "sint (UnsafeCounter.count (counter s)) \<le> 2000"
    and "pc (t1 s) = Store \<longrightarrow> sint (reg (t1 s)) \<le> 2000"
    and "pc (t2 s) = Store \<longrightarrow> sint (reg (t2 s)) \<le> 2000"
  using assms loop_inv_completed [of "t1 s"] loop_inv_completed [of "t2 s"]
  by (auto simp: inv_Unsafe_def)

lemma inv_Unsafe_step:
  assumes "inv_Unsafe s" and "runThreadsUnsafe_step a s = Next s'"
  shows "inv_Unsafe s'"
proof (cases a)
  case Main
  from assms have j: "join_inv (rpc s) (t1 s) (t2 s)" by (simp add: inv_Unsafe_def)
  from assms(2) have st: "runThreads_step UnsafeCounter_task_step Main s = Next s'"
    by (simp add: runThreadsUnsafe_step_def Main)
  from Main_step [OF st j] assms(1) show ?thesis
    by (auto simp: inv_Unsafe_def started_simps NotStarted_simps)
next
  case (Thread t)
  show ?thesis
  proof (cases t)
    case T1
    with Thread assms(2) obtain w c
      where st: "UnsafeCounter_task_step (t1 s) (counter s) = Next (w, c)"
        and s': "s' = s\<lparr>t1 := w, counter := c\<rparr>"
      by (auto simp: runThreadsUnsafe_step_def runThreads_step_T1)
    from assms(1) have l: "loop_inv (t1 s)" by (simp add: inv_Unsafe_def)
    note f = Unsafe_task_step [OF st l]
    from f assms(1) have "join_inv (rpc s) (t1 s') (t2 s')"
      using join_inv_t1 [of "rpc s" "t1 s" "t2 s" w] by (simp add: inv_Unsafe_def s')
    with f assms(1) show ?thesis
      by (auto simp: inv_Unsafe_def s')
  next
    case T2
    with Thread assms(2) obtain w c
      where st: "UnsafeCounter_task_step (t2 s) (counter s) = Next (w, c)"
        and s': "s' = s\<lparr>t2 := w, counter := c\<rparr>"
      by (auto simp: runThreadsUnsafe_step_def runThreads_step_T2)
    from assms(1) have l: "loop_inv (t2 s)" by (simp add: inv_Unsafe_def)
    note f = Unsafe_task_step [OF st l]
    from f assms(1) have "join_inv (rpc s) (t1 s') (t2 s')"
      using join_inv_t2 [of "rpc s" "t1 s" "t2 s" w] by (simp add: inv_Unsafe_def s')
    with f assms(1) show ?thesis
      by (auto simp: inv_Unsafe_def s')
  qed
qed

lemma Unsafe_no_fault: "inv_Unsafe s \<Longrightarrow> runThreadsUnsafe_step a s \<noteq> Fault e"
proof (cases a)
  case Main
  then show ?thesis by (simp add: runThreadsUnsafe_step_def runThreads_step_Main_no_fault)
next
  case (Thread t)
  assume i: "inv_Unsafe s"
  then have "loop_inv (t1 s)" "loop_inv (t2 s)" by (simp_all add: inv_Unsafe_def)
  moreover from inv_Unsafe_bound(3,4) [OF i]
  have "pc (t1 s) = Store \<longrightarrow> sint (reg (t1 s)) < 2147483647"
    "pc (t2 s) = Store \<longrightarrow> sint (reg (t2 s)) < 2147483647" by auto
  ultimately show ?thesis using Thread
    by (cases t)
      (simp_all add: runThreadsUnsafe_step_def runThreads_step_T1_Fault runThreads_step_T2_Fault
        Unsafe_task_no_fault)
qed

lemma Unsafe_progress:
  assumes "inv_Unsafe s" and "rpc s \<noteq> Returned"
  shows "\<exists>a s'. runThreadsUnsafe_step a s = Next s'"
proof -
  from assms(1) have l: "loop_inv (t1 s)" "loop_inv (t2 s)"
    and j: "join_inv (rpc s) (t1 s) (t2 s)"
    and p1: "pc (t1 s) \<notin> {Lock, Unlock, FetchAdd}"
    and p2: "pc (t2 s) \<notin> {Lock, Unlock, FetchAdd}"
    by (simp_all add: inv_Unsafe_def)
  from inv_Unsafe_bound(3,4) [OF assms(1)]
  have r: "pc (t1 s) = Store \<longrightarrow> sint (reg (t1 s)) < 2147483647"
    "pc (t2 s) = Store \<longrightarrow> sint (reg (t2 s)) < 2147483647" by auto
  show ?thesis
  proof (cases "rpc s = Spawn1 \<or> rpc s = Spawn2 \<or> rpc s = Join1 \<and> pc (t1 s) = Finished
     \<or> rpc s = Join2 \<and> pc (t2 s) = Finished")
    case True
    then show ?thesis
      unfolding runThreadsUnsafe_step_def by (rule runThreads_step_Main_progress)
  next
    case False
    with assms(2) consider "rpc s = Join1" "pc (t1 s) \<noteq> Finished"
      | "rpc s = Join2" "pc (t2 s) \<noteq> Finished"
      by (cases "rpc s") auto
    then show ?thesis
    proof cases
      case 1
      with j p1 have "pc (t1 s) = LoopTest \<or> pc (t1 s) = Load \<or> pc (t1 s) = Store \<or> pc (t1 s) = LoopIncr"
        by (cases "pc (t1 s)") (simp_all add: join_inv_def)
      from Unsafe_task_progress [OF l(1) this r(1), of "counter s"] show ?thesis
        unfolding runThreadsUnsafe_step_def by (auto intro: runThreads_step_T1_progress)
    next
      case 2
      with j p2 have "pc (t2 s) = LoopTest \<or> pc (t2 s) = Load \<or> pc (t2 s) = Store \<or> pc (t2 s) = LoopIncr"
        by (cases "pc (t2 s)") (simp_all add: join_inv_def)
      from Unsafe_task_progress [OF l(2) this r(2), of "counter s"] show ?thesis
        unfolding runThreadsUnsafe_step_def by (auto intro: runThreads_step_T2_progress)
    qed
  qed
qed

lemma Unsafe_steps_left:
  assumes "inv_Unsafe s" and "runThreadsUnsafe_step a s = Next s'"
  shows "steps_left 4 pos_Unsafe s' = steps_left 4 pos_Unsafe s - 1"
proof (cases a)
  case Main
  from assms have j: "join_inv (rpc s) (t1 s) (t2 s)" by (simp add: inv_Unsafe_def)
  from assms(2) have st: "runThreads_step UnsafeCounter_task_step Main s = Next s'"
    by (simp add: runThreadsUnsafe_step_def Main)
  have "pos_Unsafe LoopTest = 0" by (simp add: pos_Unsafe_def)
  with Main_step [OF st j] show ?thesis
    by (auto simp: steps_left_def remaining_started)
next
  case (Thread t)
  from assms(1) have l: "loop_inv (t1 s)" "loop_inv (t2 s)" by (simp_all add: inv_Unsafe_def)
  show ?thesis
  proof (cases t)
    case T1
    with Thread assms(2) obtain w c
      where st: "UnsafeCounter_task_step (t1 s) (counter s) = Next (w, c)"
        and s': "s' = s\<lparr>t1 := w, counter := c\<rparr>"
      by (auto simp: runThreadsUnsafe_step_def runThreads_step_T1)
    from Unsafe_task_step [OF st l(1)] show ?thesis
      by (simp add: steps_left_def s')
  next
    case T2
    with Thread assms(2) obtain w c
      where st: "UnsafeCounter_task_step (t2 s) (counter s) = Next (w, c)"
        and s': "s' = s\<lparr>t2 := w, counter := c\<rparr>"
      by (auto simp: runThreadsUnsafe_step_def runThreads_step_T2)
    from Unsafe_task_step [OF st l(2)] show ?thesis
      by (simp add: steps_left_def s')
  qed
qed

lemma Unsafe_entered:
  assumes "inv_Unsafe s" and "runThreadsUnsafe_step a s = Next s'"
  shows "entered Load (worker_of t s') =
     entered Load (worker_of t s) + (if a = Thread t \<and> pc (worker_of t s) = Load then 1 else 0)"
proof (cases a)
  case Main
  from assms have j: "join_inv (rpc s) (t1 s) (t2 s)" by (simp add: inv_Unsafe_def)
  from assms(2) have st: "runThreads_step UnsafeCounter_task_step Main s = Next s'"
    by (simp add: runThreadsUnsafe_step_def Main)
  from Main_step [OF st j] Main show ?thesis
    by (cases t) (auto simp: worker_of_def started_simps NotStarted_simps)
next
  case (Thread u)
  from assms(1) have l: "loop_inv (t1 s)" "loop_inv (t2 s)" by (simp_all add: inv_Unsafe_def)
  show ?thesis
  proof (cases u)
    case T1
    with Thread assms(2) obtain w c
      where st: "UnsafeCounter_task_step (t1 s) (counter s) = Next (w, c)"
        and s': "s' = s\<lparr>t1 := w, counter := c\<rparr>"
      by (auto simp: runThreadsUnsafe_step_def runThreads_step_T1)
    from Unsafe_task_step [OF st l(1)] Thread T1 show ?thesis
      by (cases t) (simp_all add: worker_of_def s')
  next
    case T2
    with Thread assms(2) obtain w c
      where st: "UnsafeCounter_task_step (t2 s) (counter s) = Next (w, c)"
        and s': "s' = s\<lparr>t2 := w, counter := c\<rparr>"
      by (auto simp: runThreadsUnsafe_step_def runThreads_step_T2)
    from Unsafe_task_step [OF st l(2)] Thread T2 show ?thesis
      by (cases t) (simp_all add: worker_of_def s')
  qed
qed

lemma Unsafe_steps_left_nonneg: "inv_Unsafe s \<Longrightarrow> 0 \<le> steps_left 4 pos_Unsafe s"
proof -
  have r: "0 \<le> remaining 4 pos_Unsafe w" if "loop_inv w" for w
    using that by (cases "pc w") (simp_all add: remaining_def loop_inv_def pos_Unsafe_def)
  have "0 \<le> rank p" for p by (cases p) (simp_all add: rank_def)
  from this [of "rpc s"] show "inv_Unsafe s \<Longrightarrow> 0 \<le> steps_left 4 pos_Unsafe s"
    using r [of "t1 s"] r [of "t2 s"] by (simp add: steps_left_def inv_Unsafe_def)
qed

subsection \<open>SafeCounterOnlyMutex\<close>

lemma Safe_task_step:
  assumes "SafeCounterOnlyMutex_task_step w c = Next (w', c')" and "loop_inv w"
    and "pc w = Store \<longrightarrow> reg w = SafeCounterOnlyMutex.count c"
    and "sint (SafeCounterOnlyMutex.count c) < 2147483647"
  shows "pc w \<noteq> NotStarted \<and> pc w \<noteq> Finished \<and> pc w' \<noteq> NotStarted
    \<and> loop_inv w'
    \<and> pc w' \<noteq> FetchAdd
    \<and> remaining 6 pos_Safe w' = remaining 6 pos_Safe w - 1
    \<and> entered Lock w' = entered Lock w + (if pc w = Lock then 1 else 0)
    \<and> sint (SafeCounterOnlyMutex.count c') - completed w' =
        sint (SafeCounterOnlyMutex.count c) - completed w
    \<and> (mtx c' = Locked) = (pc w = Lock \<or> pc w \<noteq> Unlock \<and> mtx c = Locked)
    \<and> in_cs w' = (pc w = Lock \<or> pc w \<noteq> Unlock \<and> in_cs w)
    \<and> (pc w = Lock \<longrightarrow> mtx c = Unlocked)
    \<and> (pc w' = Store \<longrightarrow> reg w' = SafeCounterOnlyMutex.count c')
    \<and> (pc w \<noteq> Store \<longrightarrow> SafeCounterOnlyMutex.count c' = SafeCounterOnlyMutex.count c)"
proof (cases "pc w")
  case LoopTest
  with assms(1) have "w' = loop_test Lock w" "c' = c"
    by (auto simp: SafeCounterOnlyMutex_task_step_def)
  with LoopTest assms(2) show ?thesis
    by (simp add: loop_test_def loop_inv_def completed_def remaining_def pos_Safe_def entered_def
        in_cs_def)
next
  case Lock
  with assms(1) have "mtx c \<noteq> Locked" "w' = w\<lparr>pc := Load\<rparr>" "c' = c\<lparr>mtx := Locked\<rparr>"
    by (auto simp: SafeCounterOnlyMutex_task_step_def split: if_splits)
  with Lock assms(2) show ?thesis
    by (cases "mtx c")
      (simp_all add: loop_inv_def completed_def remaining_def pos_Safe_def entered_def in_cs_def)
next
  case Load
  with assms(1) have "w' = w\<lparr>reg := SafeCounterOnlyMutex.count c, pc := Store\<rparr>" "c' = c"
    by (auto simp: SafeCounterOnlyMutex_task_step_def)
  with Load assms(2) show ?thesis
    by (simp add: loop_inv_def completed_def remaining_def pos_Safe_def entered_def in_cs_def)
next
  case Store
  with assms(1) obtain v where "incr_int (reg w) = Next v"
    "w' = w\<lparr>pc := Unlock\<rparr>" "c' = c\<lparr>SafeCounterOnlyMutex.count := v\<rparr>"
    by (auto simp: SafeCounterOnlyMutex_task_step_def split: result.splits)
  with Store assms(2,3) incr_int_sint [of "reg w" v] show ?thesis
    by (simp add: loop_inv_def completed_def remaining_def pos_Safe_def entered_def in_cs_def)
next
  case Unlock
  with assms(1) have "w' = w\<lparr>pc := LoopIncr\<rparr>" "c' = c\<lparr>mtx := Unlocked\<rparr>"
    by (auto simp: SafeCounterOnlyMutex_task_step_def)
  with Unlock assms(2) show ?thesis
    by (simp add: loop_inv_def completed_def remaining_def pos_Safe_def entered_def in_cs_def)
next
  case LoopIncr
  with assms(1) have "loop_incr w = Next w'" "c' = c"
    by (auto simp: SafeCounterOnlyMutex_task_step_def split: result.splits)
  with LoopIncr assms(2) loop_incr_Next [of w w'] show ?thesis
    by (simp add: loop_inv_def completed_def remaining_def pos_Safe_def entered_def in_cs_def)
qed (use assms in \<open>simp_all add: SafeCounterOnlyMutex_task_step_def\<close>)

lemma Safe_task_no_fault:
  "loop_inv w \<Longrightarrow> (pc w = Store \<longrightarrow> sint (reg w) < 2147483647) \<Longrightarrow>
   SafeCounterOnlyMutex_task_step w c \<noteq> Fault e"
  by (cases "pc w")
    (auto simp: SafeCounterOnlyMutex_task_step_def loop_inv_def incr_int_Fault_iff
      split: result.splits dest: loop_incr_Fault)

lemma Safe_task_progress:
  assumes "loop_inv w" and "pc w \<noteq> NotStarted" and "pc w \<noteq> Finished" and "pc w \<noteq> FetchAdd"
    and "pc w = Store \<longrightarrow> sint (reg w) < 2147483647"
    and "pc w = Lock \<longrightarrow> mtx c = Unlocked"
  shows "\<exists>w' c'. SafeCounterOnlyMutex_task_step w c = Next (w', c')"
proof (cases "pc w")
  case Store
  with assms(5) show ?thesis
    by (simp add: SafeCounterOnlyMutex_task_step_def incr_int_small)
next
  case LoopIncr
  with assms(1) obtain w' where "loop_incr w = Next w'"
    using loop_incr_progress [of w] by (auto simp: loop_inv_def)
  with LoopIncr show ?thesis by (simp add: SafeCounterOnlyMutex_task_step_def)
qed (use assms in \<open>simp_all add: SafeCounterOnlyMutex_task_step_def\<close>)

lemma inv_Safe_enter: "inv_Safe (enter SafeCounterOnlyMutex_new)"
  by (simp add: inv_Safe_def enter_def idle_def loop_inv_def join_inv_def completed_def
      in_cs_def SafeCounterOnlyMutex_new_def)

lemma inv_Safe_bound:
  assumes "inv_Safe s"
  shows "0 \<le> sint (SafeCounterOnlyMutex.count (counter s))"
    and "sint (SafeCounterOnlyMutex.count (counter s)) \<le> 2000"
    and "pc (t1 s) = Store \<longrightarrow> sint (reg (t1 s)) \<le> 2000"
    and "pc (t2 s) = Store \<longrightarrow> sint (reg (t2 s)) \<le> 2000"
  using assms loop_inv_completed [of "t1 s"] loop_inv_completed [of "t2 s"]
  by (auto simp: inv_Safe_def)

lemma inv_Safe_step:
  assumes "inv_Safe s" and "runThreadsSafe_step a s = Next s'"
  shows "inv_Safe s'"
proof (cases a)
  case Main
  from assms have j: "join_inv (rpc s) (t1 s) (t2 s)" by (simp add: inv_Safe_def)
  from assms(2) have st: "runThreads_step SafeCounterOnlyMutex_task_step Main s = Next s'"
    by (simp add: runThreadsSafe_step_def Main)
  from Main_step [OF st j] assms(1) show ?thesis
    by (auto simp: inv_Safe_def started_simps NotStarted_simps)
next
  case (Thread t)
  from inv_Safe_bound [OF assms(1)]
  have small: "sint (SafeCounterOnlyMutex.count (counter s)) < 2147483647" by simp
  have cs: "pc w = Store \<Longrightarrow> in_cs w" for w by (simp add: in_cs_def)
  show ?thesis
  proof (cases t)
    case T1
    with Thread assms(2) obtain w c
      where st: "SafeCounterOnlyMutex_task_step (t1 s) (counter s) = Next (w, c)"
        and s': "s' = s\<lparr>t1 := w, counter := c\<rparr>"
      by (auto simp: runThreadsSafe_step_def runThreads_step_T1)
    from assms(1) have l: "loop_inv (t1 s)"
      and r: "pc (t1 s) = Store \<longrightarrow> reg (t1 s) = SafeCounterOnlyMutex.count (counter s)"
      by (simp_all add: inv_Safe_def)
    note f = Safe_task_step [OF st l r small]
    from f assms(1) have j: "join_inv (rpc s) (t1 s') (t2 s')"
      using join_inv_t1 [of "rpc s" "t1 s" "t2 s" w] by (simp add: inv_Safe_def s')
    from assms(1) have m: "(mtx (counter s) = Locked) = (in_cs (t1 s) \<or> in_cs (t2 s))"
      and x: "\<not> (in_cs (t1 s) \<and> in_cs (t2 s))"
      and o: "pc (t2 s) = Store \<longrightarrow> reg (t2 s) = SafeCounterOnlyMutex.count (counter s)"
      by (simp_all add: inv_Safe_def)
    from f have u: "pc (t1 s) = Unlock \<longrightarrow> in_cs (t1 s)" by (simp add: in_cs_def)
    from f m x u have m': "(mtx c = Locked) = (in_cs w \<or> in_cs (t2 s))"
      and x': "\<not> (in_cs w \<and> in_cs (t2 s))"
      by (cases "mtx (counter s)"; auto)+
    from f o x cs [of "t1 s"] cs [of "t2 s"]
    have o': "pc (t2 s) = Store \<longrightarrow> reg (t2 s) = SafeCounterOnlyMutex.count c" by auto
    from f j m' x' o' assms(1) show ?thesis
      by (simp add: inv_Safe_def s' disj_commute conj_commute)
  next
    case T2
    with Thread assms(2) obtain w c
      where st: "SafeCounterOnlyMutex_task_step (t2 s) (counter s) = Next (w, c)"
        and s': "s' = s\<lparr>t2 := w, counter := c\<rparr>"
      by (auto simp: runThreadsSafe_step_def runThreads_step_T2)
    from assms(1) have l: "loop_inv (t2 s)"
      and r: "pc (t2 s) = Store \<longrightarrow> reg (t2 s) = SafeCounterOnlyMutex.count (counter s)"
      by (simp_all add: inv_Safe_def)
    note f = Safe_task_step [OF st l r small]
    from f assms(1) have j: "join_inv (rpc s) (t1 s') (t2 s')"
      using join_inv_t2 [of "rpc s" "t1 s" "t2 s" w] by (simp add: inv_Safe_def s')
    from assms(1) have m: "(mtx (counter s) = Locked) = (in_cs (t1 s) \<or> in_cs (t2 s))"
      and x: "\<not> (in_cs (t1 s) \<and> in_cs (t2 s))"
      and o: "pc (t1 s) = Store \<longrightarrow> reg (t1 s) = SafeCounterOnlyMutex.count (counter s)"
      by (simp_all add: inv_Safe_def)
    from f have u: "pc (t2 s) = Unlock \<longrightarrow> in_cs (t2 s)" by (simp add: in_cs_def)
    from f m x u have m': "(mtx c = Locked) = (in_cs w \<or> in_cs (t1 s))"
      and x': "\<not> (in_cs w \<and> in_cs (t1 s))"
      by (cases "mtx (counter s)"; auto)+
    from f o x cs [of "t2 s"] cs [of "t1 s"]
    have o': "pc (t1 s) = Store \<longrightarrow> reg (t1 s) = SafeCounterOnlyMutex.count c" by auto
    from f j m' x' o' assms(1) show ?thesis
      by (simp add: inv_Safe_def s' disj_commute conj_commute)
  qed
qed

lemma Safe_no_fault: "inv_Safe s \<Longrightarrow> runThreadsSafe_step a s \<noteq> Fault e"
proof (cases a)
  case Main
  then show ?thesis by (simp add: runThreadsSafe_step_def runThreads_step_Main_no_fault)
next
  case (Thread t)
  assume i: "inv_Safe s"
  then have "loop_inv (t1 s)" "loop_inv (t2 s)" by (simp_all add: inv_Safe_def)
  moreover from inv_Safe_bound(3,4) [OF i]
  have "pc (t1 s) = Store \<longrightarrow> sint (reg (t1 s)) < 2147483647"
    "pc (t2 s) = Store \<longrightarrow> sint (reg (t2 s)) < 2147483647" by auto
  ultimately show ?thesis using Thread
    by (cases t)
      (simp_all add: runThreadsSafe_step_def runThreads_step_T1_Fault runThreads_step_T2_Fault
        Safe_task_no_fault)
qed

lemma Safe_progress:
  assumes "inv_Safe s" and "rpc s \<noteq> Returned"
  shows "\<exists>a s'. runThreadsSafe_step a s = Next s'"
proof -
  from assms(1) have l: "loop_inv (t1 s)" "loop_inv (t2 s)"
    and j: "join_inv (rpc s) (t1 s) (t2 s)"
    and p: "pc (t1 s) \<noteq> FetchAdd" "pc (t2 s) \<noteq> FetchAdd"
    and m: "(mtx (counter s) = Locked) = (in_cs (t1 s) \<or> in_cs (t2 s))"
    by (simp_all add: inv_Safe_def)
  from inv_Safe_bound(3,4) [OF assms(1)]
  have r: "pc (t1 s) = Store \<longrightarrow> sint (reg (t1 s)) < 2147483647"
    "pc (t2 s) = Store \<longrightarrow> sint (reg (t2 s)) < 2147483647" by auto
  have free: "pc w = Lock \<longrightarrow> mtx (counter s) = Unlocked" if "in_cs w" for w
    using that by (auto simp: in_cs_def)
  have go1: "\<exists>a s'. runThreadsSafe_step a s = Next s'"
    if "pc (t1 s) \<noteq> NotStarted" "pc (t1 s) \<noteq> Finished" "pc (t1 s) = Lock \<longrightarrow> mtx (counter s) = Unlocked"
    using Safe_task_progress [OF l(1) that(1,2) p(1) r(1) that(3)]
    unfolding runThreadsSafe_step_def by (auto intro: runThreads_step_T1_progress)
  have go2: "\<exists>a s'. runThreadsSafe_step a s = Next s'"
    if "pc (t2 s) \<noteq> NotStarted" "pc (t2 s) \<noteq> Finished" "pc (t2 s) = Lock \<longrightarrow> mtx (counter s) = Unlocked"
    using Safe_task_progress [OF l(2) that(1,2) p(2) r(2) that(3)]
    unfolding runThreadsSafe_step_def by (auto intro: runThreads_step_T2_progress)
  have in_cs_pc: "pc w \<noteq> NotStarted \<and> pc w \<noteq> Finished \<and> pc w \<noteq> Lock" if "in_cs w" for w
    using that by (auto simp: in_cs_def)
  show ?thesis
  proof (cases "rpc s = Spawn1 \<or> rpc s = Spawn2 \<or> rpc s = Join1 \<and> pc (t1 s) = Finished
     \<or> rpc s = Join2 \<and> pc (t2 s) = Finished")
    case True
    then show ?thesis
      unfolding runThreadsSafe_step_def by (rule runThreads_step_Main_progress)
  next
    case False
    with assms(2) consider "rpc s = Join1" "pc (t1 s) \<noteq> Finished"
      | "rpc s = Join2" "pc (t2 s) \<noteq> Finished"
      by (cases "rpc s") auto
    then show ?thesis
    proof cases
      case 1
      with j have n: "pc (t1 s) \<noteq> NotStarted" by (simp add: join_inv_def)
      show ?thesis
      proof (cases "pc (t1 s) = Lock \<and> mtx (counter s) = Locked")
        case True
        with m have "in_cs (t2 s)" by (simp add: in_cs_def)
        from in_cs_pc [OF this] show ?thesis by (intro go2) simp_all
      next
        case False
        then have "pc (t1 s) = Lock \<longrightarrow> mtx (counter s) = Unlocked"
          by (cases "mtx (counter s)") simp_all
        with n 1(2) show ?thesis by (intro go1)
      qed
    next
      case 2
      with j have n: "pc (t2 s) \<noteq> NotStarted" "pc (t1 s) = Finished" by (simp_all add: join_inv_def)
      show ?thesis
      proof (cases "pc (t2 s) = Lock \<and> mtx (counter s) = Locked")
        case True
        with m n(2) show ?thesis by (simp add: in_cs_def)
      next
        case False
        then have "pc (t2 s) = Lock \<longrightarrow> mtx (counter s) = Unlocked"
          by (cases "mtx (counter s)") simp_all
        with n 2(2) show ?thesis by (intro go2)
      qed
    qed
  qed
qed

lemma Safe_steps_left:
  assumes "inv_Safe s" and "runThreadsSafe_step a s = Next s'"
  shows "steps_left 6 pos_Safe s' = steps_left 6 pos_Safe s - 1"
proof (cases a)
  case Main
  from assms have j: "join_inv (rpc s) (t1 s) (t2 s)" by (simp add: inv_Safe_def)
  from assms(2) have st: "runThreads_step SafeCounterOnlyMutex_task_step Main s = Next s'"
    by (simp add: runThreadsSafe_step_def Main)
  have "pos_Safe LoopTest = 0" by (simp add: pos_Safe_def)
  with Main_step [OF st j] show ?thesis
    by (auto simp: steps_left_def remaining_started)
next
  case (Thread t)
  from inv_Safe_bound [OF assms(1)]
  have small: "sint (SafeCounterOnlyMutex.count (counter s)) < 2147483647" by simp
  from assms(1) have l: "loop_inv (t1 s)" "loop_inv (t2 s)"
    and r: "pc (t1 s) = Store \<longrightarrow> reg (t1 s) = SafeCounterOnlyMutex.count (counter s)"
      "pc (t2 s) = Store \<longrightarrow> reg (t2 s) = SafeCounterOnlyMutex.count (counter s)"
    by (simp_all add: inv_Safe_def)
  show ?thesis
  proof (cases t)
    case T1
    with Thread assms(2) obtain w c
      where st: "SafeCounterOnlyMutex_task_step (t1 s) (counter s) = Next (w, c)"
        and s': "s' = s\<lparr>t1 := w, counter := c\<rparr>"
      by (auto simp: runThreadsSafe_step_def runThreads_step_T1)
    from Safe_task_step [OF st l(1) r(1) small] show ?thesis
      by (simp add: steps_left_def s')
  next
    case T2
    with Thread assms(2) obtain w c
      where st: "SafeCounterOnlyMutex_task_step (t2 s) (counter s) = Next (w, c)"
        and s': "s' = s\<lparr>t2 := w, counter := c\<rparr>"
      by (auto simp: runThreadsSafe_step_def runThreads_step_T2)
    from Safe_task_step [OF st l(2) r(2) small] show ?thesis
      by (simp add: steps_left_def s')
  qed
qed

lemma Safe_entered:
  assumes "inv_Safe s" and "runThreadsSafe_step a s = Next s'"
  shows "entered Lock (worker_of t s') =
     entered Lock (worker_of t s) + (if a = Thread t \<and> pc (worker_of t s) = Lock then 1 else 0)"
proof (cases a)
  case Main
  from assms have j: "join_inv (rpc s) (t1 s) (t2 s)" by (simp add: inv_Safe_def)
  from assms(2) have st: "runThreads_step SafeCounterOnlyMutex_task_step Main s = Next s'"
    by (simp add: runThreadsSafe_step_def Main)
  from Main_step [OF st j] Main show ?thesis
    by (cases t) (auto simp: worker_of_def started_simps NotStarted_simps)
next
  case (Thread u)
  from inv_Safe_bound [OF assms(1)]
  have small: "sint (SafeCounterOnlyMutex.count (counter s)) < 2147483647" by simp
  from assms(1) have l: "loop_inv (t1 s)" "loop_inv (t2 s)"
    and r: "pc (t1 s) = Store \<longrightarrow> reg (t1 s) = SafeCounterOnlyMutex.count (counter s)"
      "pc (t2 s) = Store \<longrightarrow> reg (t2 s) = SafeCounterOnlyMutex.count (counter s)"
    by (simp_all add: inv_Safe_def)
  show ?thesis
  proof (cases u)
    case T1
    with Thread assms(2) obtain w c
      where st: "SafeCounterOnlyMutex_task_step (t1 s) (counter s) = Next (w, c)"
        and s': "s' = s\<lparr>t1 := w, counter := c\<rparr>"
      by (auto simp: runThreadsSafe_step_def runThreads_step_T1)
    from Safe_task_step [OF st l(1) r(1) small] Thread T1 show ?thesis
      by (cases t) (simp_all add: worker_of_def s')
  next
    case T2
    with Thread assms(2) obtain w c
      where st: "SafeCounterOnlyMutex_task_step (t2 s) (counter s) = Next (w, c)"
        and s': "s' = s\<lparr>t2 := w, counter := c\<rparr>"
      by (auto simp: runThreadsSafe_step_def runThreads_step_T2)
    from Safe_task_step [OF st l(2) r(2) small] Thread T2 show ?thesis
      by (cases t) (simp_all add: worker_of_def s')
  qed
qed

lemma Safe_steps_left_nonneg: "inv_Safe s \<Longrightarrow> 0 \<le> steps_left 6 pos_Safe s"
proof -
  have r: "0 \<le> remaining 6 pos_Safe w" if "loop_inv w" for w
    using that by (cases "pc w") (simp_all add: remaining_def loop_inv_def pos_Safe_def)
  have "0 \<le> rank p" for p by (cases p) (simp_all add: rank_def)
  from this [of "rpc s"] show "inv_Safe s \<Longrightarrow> 0 \<le> steps_left 6 pos_Safe s"
    using r [of "t1 s"] r [of "t2 s"] by (simp add: steps_left_def inv_Safe_def)
qed

subsection \<open>Uninterrupted rounds of one thread\<close>

lemma concat_replicate_Suc: "concat (replicate (Suc k) xs) = xs @ concat (replicate k xs)"
  by simp

lemma Atomic_rounds_T1:
  "0 \<le> sint n \<Longrightarrow> sint n + int k \<le> 1000 \<Longrightarrow>
   exec runThreadsAtomic_step (concat (replicate k (replicate 3 (Thread T1))))
     \<lparr>counter = \<lparr>SafeCounterAtomic.count = c\<rparr>, rpc = p,
      t1 = \<lparr>pc = LoopTest, i = n, reg = r\<rparr>,
      t2 = w\<rparr>
   = Next \<lparr>counter = \<lparr>SafeCounterAtomic.count = c + of_nat k\<rparr>, rpc = p,
      t1 = \<lparr>pc = LoopTest, i = n + of_nat k, reg = r\<rparr>,
      t2 = w\<rparr>"
proof (induction k arbitrary: n c)
  case 0
  then show ?case by simp
next
  case (Suc k)
  from Suc.prems have n: "sint n < 1000" "sint n \<noteq> 2147483647" by simp_all
  then have n1: "sint (n + 1) = sint n + 1" by (simp add: sint_succ)
  have round: "exec runThreadsAtomic_step (replicate 3 (Thread T1))
      \<lparr>counter = \<lparr>SafeCounterAtomic.count = c\<rparr>, rpc = p,
      t1 = \<lparr>pc = LoopTest, i = n, reg = r\<rparr>,
      t2 = w\<rparr>
    = Next \<lparr>counter = \<lparr>SafeCounterAtomic.count = c + 1\<rparr>, rpc = p,
      t1 = \<lparr>pc = LoopTest, i = n + 1, reg = r\<rparr>,
      t2 = w\<rparr>"
    using n
    by (simp add: eval_nat_numeral runThreadsAtomic_step_def runThreads_step_def
        SafeCounterAtomic_task_step_def loop_test_def loop_incr_def incr_int_Next_iff
        incr_int_small SafeCounterAtomic_increment_def)
  from Suc.prems n1 have "0 \<le> sint (n + 1)" "sint (n + 1) + int k \<le> 1000" by simp_all
  from Suc.IH [OF this, of "c + 1"] round show ?case
    unfolding concat_replicate_Suc exec_append by (simp add: add.assoc add.commute [of 1])
qed

lemma Unsafe_rounds_T1:
  "0 \<le> sint n \<Longrightarrow> sint n + int k \<le> 1000 \<Longrightarrow>
   0 \<le> sint c \<Longrightarrow> sint c + int k \<le> 2000 \<Longrightarrow>
   exec runThreadsUnsafe_step (concat (replicate k (replicate 4 (Thread T1))))
     \<lparr>counter = \<lparr>UnsafeCounter.count = c\<rparr>, rpc = p,
      t1 = \<lparr>pc = LoopTest, i = n, reg = r\<rparr>,
      t2 = w\<rparr>
   = Next \<lparr>counter = \<lparr>UnsafeCounter.count = c + of_nat k\<rparr>, rpc = p,
      t1 = \<lparr>pc = LoopTest, i = n + of_nat k, reg = (if k = 0 then r else c + of_nat k - 1)\<rparr>,
      t2 = w\<rparr>"
proof (induction k arbitrary: n c r)
  case 0
  then show ?case by simp
next
  case (Suc k)
  from Suc.prems have n: "sint n < 1000" "sint n \<noteq> 2147483647"
    and c: "sint c < 2147483647" "sint c \<noteq> 2147483647" by simp_all
  then have n1: "sint (n + 1) = sint n + 1" and c1: "sint (c + 1) = sint c + 1"
    by (simp_all add: sint_succ)
  have round: "exec runThreadsUnsafe_step (replicate 4 (Thread T1))
      \<lparr>counter = \<lparr>UnsafeCounter.count = c\<rparr>, rpc = p,
      t1 = \<lparr>pc = LoopTest, i = n, reg = r\<rparr>,
      t2 = w\<rparr>
    = Next \<lparr>counter = \<lparr>UnsafeCounter.count = c + 1\<rparr>, rpc = p,
      t1 = \<lparr>pc = LoopTest, i = n + 1, reg = c\<rparr>,
      t2 = w\<rparr>"
    using n c
    by (simp add: eval_nat_numeral runThreadsUnsafe_step_def runThreads_step_def
        UnsafeCounter_task_step_def loop_test_def loop_incr_def incr_int_Next_iff
        incr_int_small)
  from Suc.prems n1 c1 have "0 \<le> sint (n + 1)" "sint (n + 1) + int k \<le> 1000"
    "0 \<le> sint (c + 1)" "sint (c + 1) + int k \<le> 2000" by simp_all
  from Suc.IH [OF this, of c] round show ?case
    unfolding concat_replicate_Suc exec_append by (simp add: add.assoc add.commute [of 1])
qed

lemma Safe_rounds_T1:
  "0 \<le> sint n \<Longrightarrow> sint n + int k \<le> 1000 \<Longrightarrow>
   0 \<le> sint c \<Longrightarrow> sint c + int k \<le> 2000 \<Longrightarrow>
   exec runThreadsSafe_step (concat (replicate k (replicate 6 (Thread T1))))
     \<lparr>counter = \<lparr>SafeCounterOnlyMutex.count = c, mtx = Unlocked\<rparr>, rpc = p,
      t1 = \<lparr>pc = LoopTest, i = n, reg = r\<rparr>,
      t2 = w\<rparr>
   = Next \<lparr>counter = \<lparr>SafeCounterOnlyMutex.count = c + of_nat k, mtx = Unlocked\<rparr>, rpc = p,
      t1 = \<lparr>pc = LoopTest, i = n + of_nat k, reg = (if k = 0 then r else c + of_nat k - 1)\<rparr>,
      t2 = w\<rparr>"
proof (induction k arbitrary: n c r)
  case 0
  then show ?case by simp
next
  case (Suc k)
  from Suc.prems have n: "sint n < 1000" "sint n \<noteq> 2147483647"
    and c: "sint c < 2147483647" "sint c \<noteq> 2147483647" by simp_all
  then have n1: "sint (n + 1) = sint n + 1" and c1: "sint (c + 1) = sint c + 1"
    by (simp_all add: sint_succ)
  have round: "exec runThreadsSafe_step (replicate 6 (Thread T1))
      \<lparr>counter = \<lparr>SafeCounterOnlyMutex.count = c, mtx = Unlocked\<rparr>, rpc = p,
      t1 = \<lparr>pc = LoopTest, i = n, reg = r\<rparr>,
      t2 = w\<rparr>
    = Next \<lparr>counter = \<lparr>SafeCounterOnlyMutex.count = c + 1, mtx = Unlocked\<rparr>, rpc = p,
      t1 = \<lparr>pc = LoopTest, i = n + 1, reg = c\<rparr>,
      t2 = w\<rparr>"
    using n c
    by (simp add: eval_nat_numeral runThreadsSafe_step_def runThreads_step_def
        SafeCounterOnlyMutex_task_step_def loop_test_def loop_incr_def incr_int_Next_iff
        incr_int_small)
  from Suc.prems n1 c1 have "0 \<le> sint (n + 1)" "sint (n + 1) + int k \<le> 1000"
    "0 \<le> sint (c + 1)" "sint (c + 1) + int k \<le> 2000" by simp_all
  from Suc.IH [OF this, of c] round show ?case
    unfolding concat_replicate_Suc exec_append by (simp add: add.assoc add.commute [of 1])
qed

lemma Atomic_rounds_T2:
  "0 \<le> sint n \<Longrightarrow> sint n + int k \<le> 1000 \<Longrightarrow>
   exec runThreadsAtomic_step (concat (replicate k (replicate 3 (Thread T2))))
     \<lparr>counter = \<lparr>SafeCounterAtomic.count = c\<rparr>, rpc = p,
      t1 = w,
      t2 = \<lparr>pc = LoopTest, i = n, reg = r\<rparr>\<rparr>
   = Next \<lparr>counter = \<lparr>SafeCounterAtomic.count = c + of_nat k\<rparr>, rpc = p,
      t1 = w,
      t2 = \<lparr>pc = LoopTest, i = n + of_nat k, reg = r\<rparr>\<rparr>"
proof (induction k arbitrary: n c)
  case 0
  then show ?case by simp
next
  case (Suc k)
  from Suc.prems have n: "sint n < 1000" "sint n \<noteq> 2147483647" by simp_all
  then have n1: "sint (n + 1) = sint n + 1" by (simp add: sint_succ)
  have round: "exec runThreadsAtomic_step (replicate 3 (Thread T2))
      \<lparr>counter = \<lparr>SafeCounterAtomic.count = c\<rparr>, rpc = p,
      t1 = w,
      t2 = \<lparr>pc = LoopTest, i = n, reg = r\<rparr>\<rparr>
    = Next \<lparr>counter = \<lparr>SafeCounterAtomic.count = c + 1\<rparr>, rpc = p,
      t1 = w,
      t2 = \<lparr>pc = LoopTest, i = n + 1, reg = r\<rparr>\<rparr>"
    using n
    by (simp add: eval_nat_numeral runThreadsAtomic_step_def runThreads_step_def
        SafeCounterAtomic_task_step_def loop_test_def loop_incr_def incr_int_Next_iff
        incr_int_small SafeCounterAtomic_increment_def)
  from Suc.prems n1 have "0 \<le> sint (n + 1)" "sint (n + 1) + int k \<le> 1000" by simp_all
  from Suc.IH [OF this, of "c + 1"] round show ?case
    unfolding concat_replicate_Suc exec_append by (simp add: add.assoc add.commute [of 1])
qed

lemma Unsafe_rounds_T2:
  "0 \<le> sint n \<Longrightarrow> sint n + int k \<le> 1000 \<Longrightarrow>
   0 \<le> sint c \<Longrightarrow> sint c + int k \<le> 2000 \<Longrightarrow>
   exec runThreadsUnsafe_step (concat (replicate k (replicate 4 (Thread T2))))
     \<lparr>counter = \<lparr>UnsafeCounter.count = c\<rparr>, rpc = p,
      t1 = w,
      t2 = \<lparr>pc = LoopTest, i = n, reg = r\<rparr>\<rparr>
   = Next \<lparr>counter = \<lparr>UnsafeCounter.count = c + of_nat k\<rparr>, rpc = p,
      t1 = w,
      t2 = \<lparr>pc = LoopTest, i = n + of_nat k, reg = (if k = 0 then r else c + of_nat k - 1)\<rparr>\<rparr>"
proof (induction k arbitrary: n c r)
  case 0
  then show ?case by simp
next
  case (Suc k)
  from Suc.prems have n: "sint n < 1000" "sint n \<noteq> 2147483647"
    and c: "sint c < 2147483647" "sint c \<noteq> 2147483647" by simp_all
  then have n1: "sint (n + 1) = sint n + 1" and c1: "sint (c + 1) = sint c + 1"
    by (simp_all add: sint_succ)
  have round: "exec runThreadsUnsafe_step (replicate 4 (Thread T2))
      \<lparr>counter = \<lparr>UnsafeCounter.count = c\<rparr>, rpc = p,
      t1 = w,
      t2 = \<lparr>pc = LoopTest, i = n, reg = r\<rparr>\<rparr>
    = Next \<lparr>counter = \<lparr>UnsafeCounter.count = c + 1\<rparr>, rpc = p,
      t1 = w,
      t2 = \<lparr>pc = LoopTest, i = n + 1, reg = c\<rparr>\<rparr>"
    using n c
    by (simp add: eval_nat_numeral runThreadsUnsafe_step_def runThreads_step_def
        UnsafeCounter_task_step_def loop_test_def loop_incr_def incr_int_Next_iff
        incr_int_small)
  from Suc.prems n1 c1 have "0 \<le> sint (n + 1)" "sint (n + 1) + int k \<le> 1000"
    "0 \<le> sint (c + 1)" "sint (c + 1) + int k \<le> 2000" by simp_all
  from Suc.IH [OF this, of c] round show ?case
    unfolding concat_replicate_Suc exec_append by (simp add: add.assoc add.commute [of 1])
qed

lemma Safe_rounds_T2:
  "0 \<le> sint n \<Longrightarrow> sint n + int k \<le> 1000 \<Longrightarrow>
   0 \<le> sint c \<Longrightarrow> sint c + int k \<le> 2000 \<Longrightarrow>
   exec runThreadsSafe_step (concat (replicate k (replicate 6 (Thread T2))))
     \<lparr>counter = \<lparr>SafeCounterOnlyMutex.count = c, mtx = Unlocked\<rparr>, rpc = p,
      t1 = w,
      t2 = \<lparr>pc = LoopTest, i = n, reg = r\<rparr>\<rparr>
   = Next \<lparr>counter = \<lparr>SafeCounterOnlyMutex.count = c + of_nat k, mtx = Unlocked\<rparr>, rpc = p,
      t1 = w,
      t2 = \<lparr>pc = LoopTest, i = n + of_nat k, reg = (if k = 0 then r else c + of_nat k - 1)\<rparr>\<rparr>"
proof (induction k arbitrary: n c r)
  case 0
  then show ?case by simp
next
  case (Suc k)
  from Suc.prems have n: "sint n < 1000" "sint n \<noteq> 2147483647"
    and c: "sint c < 2147483647" "sint c \<noteq> 2147483647" by simp_all
  then have n1: "sint (n + 1) = sint n + 1" and c1: "sint (c + 1) = sint c + 1"
    by (simp_all add: sint_succ)
  have round: "exec runThreadsSafe_step (replicate 6 (Thread T2))
      \<lparr>counter = \<lparr>SafeCounterOnlyMutex.count = c, mtx = Unlocked\<rparr>, rpc = p,
      t1 = w,
      t2 = \<lparr>pc = LoopTest, i = n, reg = r\<rparr>\<rparr>
    = Next \<lparr>counter = \<lparr>SafeCounterOnlyMutex.count = c + 1, mtx = Unlocked\<rparr>, rpc = p,
      t1 = w,
      t2 = \<lparr>pc = LoopTest, i = n + 1, reg = c\<rparr>\<rparr>"
    using n c
    by (simp add: eval_nat_numeral runThreadsSafe_step_def runThreads_step_def
        SafeCounterOnlyMutex_task_step_def loop_test_def loop_incr_def incr_int_Next_iff
        incr_int_small)
  from Suc.prems n1 c1 have "0 \<le> sint (n + 1)" "sint (n + 1) + int k \<le> 1000"
    "0 \<le> sint (c + 1)" "sint (c + 1) + int k \<le> 2000" by simp_all
  from Suc.IH [OF this, of c] round show ?case
    unfolding concat_replicate_Suc exec_append by (simp add: add.assoc add.commute [of 1])
qed

subsection \<open>The particular schedules, executed\<close>

lemma exec_sequential_Unsafe:
  "exec runThreadsUnsafe_step (sequential 4) (enter UnsafeCounter_new) =
     Next \<lparr>counter = \<lparr>UnsafeCounter.count = 2000\<rparr>, rpc = Returned,
           t1 = \<lparr>pc = Finished, i = 1000, reg = 999\<rparr>,
           t2 = \<lparr>pc = Finished, i = 1000, reg = 1999\<rparr>\<rparr>"
proof -
  note defs = runThreadsUnsafe_step_def runThreads_step_def UnsafeCounter_task_step_def
    loop_test_def
  have a: "exec runThreadsUnsafe_step [Main, Main] (enter UnsafeCounter_new) =
      Next \<lparr>counter = \<lparr>UnsafeCounter.count = 0\<rparr>, rpc = Join1,
            t1 = \<lparr>pc = LoopTest, i = 0, reg = 0\<rparr>,
            t2 = \<lparr>pc = LoopTest, i = 0, reg = 0\<rparr>\<rparr>"
    by (simp add: defs enter_def idle_def started_def UnsafeCounter_new_def)
  have b: "exec runThreadsUnsafe_step (concat (replicate 1000 (replicate 4 (Thread T1))))
      \<lparr>counter = \<lparr>UnsafeCounter.count = 0\<rparr>, rpc = Join1,
       t1 = \<lparr>pc = LoopTest, i = 0, reg = 0\<rparr>,
       t2 = \<lparr>pc = LoopTest, i = 0, reg = 0\<rparr>\<rparr> =
      Next \<lparr>counter = \<lparr>UnsafeCounter.count = 1000\<rparr>, rpc = Join1,
            t1 = \<lparr>pc = LoopTest, i = 1000, reg = 999\<rparr>,
            t2 = \<lparr>pc = LoopTest, i = 0, reg = 0\<rparr>\<rparr>"
    using Unsafe_rounds_T1 [of 0 1000 0 Join1 0 "\<lparr>pc = LoopTest, i = 0, reg = 0\<rparr>"] by simp
  have c: "exec runThreadsUnsafe_step [Thread T1]
      \<lparr>counter = \<lparr>UnsafeCounter.count = 1000\<rparr>, rpc = Join1,
       t1 = \<lparr>pc = LoopTest, i = 1000, reg = 999\<rparr>,
       t2 = \<lparr>pc = LoopTest, i = 0, reg = 0\<rparr>\<rparr> =
      Next \<lparr>counter = \<lparr>UnsafeCounter.count = 1000\<rparr>, rpc = Join1,
            t1 = \<lparr>pc = Finished, i = 1000, reg = 999\<rparr>,
            t2 = \<lparr>pc = LoopTest, i = 0, reg = 0\<rparr>\<rparr>"
    by (simp add: defs)
  have d: "exec runThreadsUnsafe_step (concat (replicate 1000 (replicate 4 (Thread T2))))
      \<lparr>counter = \<lparr>UnsafeCounter.count = 1000\<rparr>, rpc = Join1,
       t1 = \<lparr>pc = Finished, i = 1000, reg = 999\<rparr>,
       t2 = \<lparr>pc = LoopTest, i = 0, reg = 0\<rparr>\<rparr> =
      Next \<lparr>counter = \<lparr>UnsafeCounter.count = 2000\<rparr>, rpc = Join1,
            t1 = \<lparr>pc = Finished, i = 1000, reg = 999\<rparr>,
            t2 = \<lparr>pc = LoopTest, i = 1000, reg = 1999\<rparr>\<rparr>"
    using Unsafe_rounds_T2 [of 0 1000 1000 Join1 "\<lparr>pc = Finished, i = 1000, reg = 999\<rparr>" 0] by simp
  have e: "exec runThreadsUnsafe_step [Thread T2, Main, Main]
      \<lparr>counter = \<lparr>UnsafeCounter.count = 2000\<rparr>, rpc = Join1,
       t1 = \<lparr>pc = Finished, i = 1000, reg = 999\<rparr>,
       t2 = \<lparr>pc = LoopTest, i = 1000, reg = 1999\<rparr>\<rparr> =
      Next \<lparr>counter = \<lparr>UnsafeCounter.count = 2000\<rparr>, rpc = Returned,
            t1 = \<lparr>pc = Finished, i = 1000, reg = 999\<rparr>,
            t2 = \<lparr>pc = Finished, i = 1000, reg = 1999\<rparr>\<rparr>"
    by (simp add: defs)
  have sched: "sequential 4 = [Main, Main] @ concat (replicate 1000 (replicate 4 (Thread T1)))
      @ [Thread T1] @ concat (replicate 1000 (replicate 4 (Thread T2))) @ [Thread T2, Main, Main]"
    by (simp add: sequential_def solo_def)
  show ?thesis
    unfolding sched by (simp only: exec_append a b c d e result.case)
qed

lemma exec_lost_update:
  "exec runThreadsUnsafe_step lost_update (enter UnsafeCounter_new) =
     Next \<lparr>counter = \<lparr>UnsafeCounter.count = 1000\<rparr>, rpc = Returned,
           t1 = \<lparr>pc = Finished, i = 1000, reg = 999\<rparr>,
           t2 = \<lparr>pc = Finished, i = 1000, reg = 999\<rparr>\<rparr>"
proof -
  note defs = runThreadsUnsafe_step_def runThreads_step_def UnsafeCounter_task_step_def
    loop_test_def loop_incr_def incr_int_def INT_MAX_def
  have a: "exec runThreadsUnsafe_step [Main, Main, Thread T1, Thread T1] (enter UnsafeCounter_new) =
      Next \<lparr>counter = \<lparr>UnsafeCounter.count = 0\<rparr>, rpc = Join1,
            t1 = \<lparr>pc = Store, i = 0, reg = 0\<rparr>,
            t2 = \<lparr>pc = LoopTest, i = 0, reg = 0\<rparr>\<rparr>"
    by (simp add: defs enter_def idle_def started_def UnsafeCounter_new_def)
  have b: "exec runThreadsUnsafe_step (concat (replicate 1000 (replicate 4 (Thread T2))))
      \<lparr>counter = \<lparr>UnsafeCounter.count = 0\<rparr>, rpc = Join1,
       t1 = \<lparr>pc = Store, i = 0, reg = 0\<rparr>,
       t2 = \<lparr>pc = LoopTest, i = 0, reg = 0\<rparr>\<rparr> =
      Next \<lparr>counter = \<lparr>UnsafeCounter.count = 1000\<rparr>, rpc = Join1,
            t1 = \<lparr>pc = Store, i = 0, reg = 0\<rparr>,
            t2 = \<lparr>pc = LoopTest, i = 1000, reg = 999\<rparr>\<rparr>"
    using Unsafe_rounds_T2 [of 0 1000 0 Join1 "\<lparr>pc = Store, i = 0, reg = 0\<rparr>" 0] by simp
  have c: "exec runThreadsUnsafe_step [Thread T2, Thread T1, Thread T1]
      \<lparr>counter = \<lparr>UnsafeCounter.count = 1000\<rparr>, rpc = Join1,
       t1 = \<lparr>pc = Store, i = 0, reg = 0\<rparr>,
       t2 = \<lparr>pc = LoopTest, i = 1000, reg = 999\<rparr>\<rparr> =
      Next \<lparr>counter = \<lparr>UnsafeCounter.count = 1\<rparr>, rpc = Join1,
            t1 = \<lparr>pc = LoopTest, i = 1, reg = 0\<rparr>,
            t2 = \<lparr>pc = Finished, i = 1000, reg = 999\<rparr>\<rparr>"
    by (simp add: defs)
  have d: "exec runThreadsUnsafe_step (concat (replicate 999 (replicate 4 (Thread T1))))
      \<lparr>counter = \<lparr>UnsafeCounter.count = 1\<rparr>, rpc = Join1,
       t1 = \<lparr>pc = LoopTest, i = 1, reg = 0\<rparr>,
       t2 = \<lparr>pc = Finished, i = 1000, reg = 999\<rparr>\<rparr> =
      Next \<lparr>counter = \<lparr>UnsafeCounter.count = 1000\<rparr>, rpc = Join1,
            t1 = \<lparr>pc = LoopTest, i = 1000, reg = 999\<rparr>,
            t2 = \<lparr>pc = Finished, i = 1000, reg = 999\<rparr>\<rparr>"
    using Unsafe_rounds_T1 [of 1 999 1 Join1 0 "\<lparr>pc = Finished, i = 1000, reg = 999\<rparr>"] by simp
  have e: "exec runThreadsUnsafe_step [Thread T1, Main, Main]
      \<lparr>counter = \<lparr>UnsafeCounter.count = 1000\<rparr>, rpc = Join1,
       t1 = \<lparr>pc = LoopTest, i = 1000, reg = 999\<rparr>,
       t2 = \<lparr>pc = Finished, i = 1000, reg = 999\<rparr>\<rparr> =
      Next \<lparr>counter = \<lparr>UnsafeCounter.count = 1000\<rparr>, rpc = Returned,
            t1 = \<lparr>pc = Finished, i = 1000, reg = 999\<rparr>,
            t2 = \<lparr>pc = Finished, i = 1000, reg = 999\<rparr>\<rparr>"
    by (simp add: defs)
  have sched: "lost_update = [Main, Main, Thread T1, Thread T1]
      @ concat (replicate 1000 (replicate 4 (Thread T2))) @ [Thread T2, Thread T1, Thread T1]
      @ concat (replicate 999 (replicate 4 (Thread T1))) @ [Thread T1, Main, Main]"
    by (simp add: lost_update_def solo_def)
  show ?thesis
    unfolding sched by (simp only: exec_append a b c d e result.case)
qed

lemma exec_sequential_Safe:
  "exec runThreadsSafe_step (sequential 6) (enter SafeCounterOnlyMutex_new) =
     Next \<lparr>counter = \<lparr>SafeCounterOnlyMutex.count = 2000, mtx = Unlocked\<rparr>, rpc = Returned,
           t1 = \<lparr>pc = Finished, i = 1000, reg = 999\<rparr>,
           t2 = \<lparr>pc = Finished, i = 1000, reg = 1999\<rparr>\<rparr>"
proof -
  note defs = runThreadsSafe_step_def runThreads_step_def SafeCounterOnlyMutex_task_step_def
    loop_test_def
  have a: "exec runThreadsSafe_step [Main, Main] (enter SafeCounterOnlyMutex_new) =
      Next \<lparr>counter = \<lparr>SafeCounterOnlyMutex.count = 0, mtx = Unlocked\<rparr>, rpc = Join1,
            t1 = \<lparr>pc = LoopTest, i = 0, reg = 0\<rparr>,
            t2 = \<lparr>pc = LoopTest, i = 0, reg = 0\<rparr>\<rparr>"
    by (simp add: defs enter_def idle_def started_def SafeCounterOnlyMutex_new_def)
  have b: "exec runThreadsSafe_step (concat (replicate 1000 (replicate 6 (Thread T1))))
      \<lparr>counter = \<lparr>SafeCounterOnlyMutex.count = 0, mtx = Unlocked\<rparr>, rpc = Join1,
       t1 = \<lparr>pc = LoopTest, i = 0, reg = 0\<rparr>,
       t2 = \<lparr>pc = LoopTest, i = 0, reg = 0\<rparr>\<rparr> =
      Next \<lparr>counter = \<lparr>SafeCounterOnlyMutex.count = 1000, mtx = Unlocked\<rparr>, rpc = Join1,
            t1 = \<lparr>pc = LoopTest, i = 1000, reg = 999\<rparr>,
            t2 = \<lparr>pc = LoopTest, i = 0, reg = 0\<rparr>\<rparr>"
    using Safe_rounds_T1 [of 0 1000 0 Join1 0 "\<lparr>pc = LoopTest, i = 0, reg = 0\<rparr>"] by simp
  have c: "exec runThreadsSafe_step [Thread T1]
      \<lparr>counter = \<lparr>SafeCounterOnlyMutex.count = 1000, mtx = Unlocked\<rparr>, rpc = Join1,
       t1 = \<lparr>pc = LoopTest, i = 1000, reg = 999\<rparr>,
       t2 = \<lparr>pc = LoopTest, i = 0, reg = 0\<rparr>\<rparr> =
      Next \<lparr>counter = \<lparr>SafeCounterOnlyMutex.count = 1000, mtx = Unlocked\<rparr>, rpc = Join1,
            t1 = \<lparr>pc = Finished, i = 1000, reg = 999\<rparr>,
            t2 = \<lparr>pc = LoopTest, i = 0, reg = 0\<rparr>\<rparr>"
    by (simp add: defs)
  have d: "exec runThreadsSafe_step (concat (replicate 1000 (replicate 6 (Thread T2))))
      \<lparr>counter = \<lparr>SafeCounterOnlyMutex.count = 1000, mtx = Unlocked\<rparr>, rpc = Join1,
       t1 = \<lparr>pc = Finished, i = 1000, reg = 999\<rparr>,
       t2 = \<lparr>pc = LoopTest, i = 0, reg = 0\<rparr>\<rparr> =
      Next \<lparr>counter = \<lparr>SafeCounterOnlyMutex.count = 2000, mtx = Unlocked\<rparr>, rpc = Join1,
            t1 = \<lparr>pc = Finished, i = 1000, reg = 999\<rparr>,
            t2 = \<lparr>pc = LoopTest, i = 1000, reg = 1999\<rparr>\<rparr>"
    using Safe_rounds_T2 [of 0 1000 1000 Join1 "\<lparr>pc = Finished, i = 1000, reg = 999\<rparr>" 0] by simp
  have e: "exec runThreadsSafe_step [Thread T2, Main, Main]
      \<lparr>counter = \<lparr>SafeCounterOnlyMutex.count = 2000, mtx = Unlocked\<rparr>, rpc = Join1,
       t1 = \<lparr>pc = Finished, i = 1000, reg = 999\<rparr>,
       t2 = \<lparr>pc = LoopTest, i = 1000, reg = 1999\<rparr>\<rparr> =
      Next \<lparr>counter = \<lparr>SafeCounterOnlyMutex.count = 2000, mtx = Unlocked\<rparr>, rpc = Returned,
            t1 = \<lparr>pc = Finished, i = 1000, reg = 999\<rparr>,
            t2 = \<lparr>pc = Finished, i = 1000, reg = 1999\<rparr>\<rparr>"
    by (simp add: defs)
  have sched: "sequential 6 = [Main, Main] @ concat (replicate 1000 (replicate 6 (Thread T1)))
      @ [Thread T1] @ concat (replicate 1000 (replicate 6 (Thread T2))) @ [Thread T2, Main, Main]"
    by (simp add: sequential_def solo_def)
  show ?thesis
    unfolding sched by (simp only: exec_append a b c d e result.case)
qed

lemma exec_sequential_Atomic:
  "exec runThreadsAtomic_step (sequential 3) (enter SafeCounterAtomic_new) =
     Next \<lparr>counter = \<lparr>SafeCounterAtomic.count = 2000\<rparr>, rpc = Returned,
           t1 = \<lparr>pc = Finished, i = 1000, reg = 0\<rparr>,
           t2 = \<lparr>pc = Finished, i = 1000, reg = 0\<rparr>\<rparr>"
proof -
  note defs = runThreadsAtomic_step_def runThreads_step_def SafeCounterAtomic_task_step_def
    loop_test_def
  have a: "exec runThreadsAtomic_step [Main, Main] (enter SafeCounterAtomic_new) =
      Next \<lparr>counter = \<lparr>SafeCounterAtomic.count = 0\<rparr>, rpc = Join1,
            t1 = \<lparr>pc = LoopTest, i = 0, reg = 0\<rparr>,
            t2 = \<lparr>pc = LoopTest, i = 0, reg = 0\<rparr>\<rparr>"
    by (simp add: defs enter_def idle_def started_def SafeCounterAtomic_new_def)
  have b: "exec runThreadsAtomic_step (concat (replicate 1000 (replicate 3 (Thread T1))))
      \<lparr>counter = \<lparr>SafeCounterAtomic.count = 0\<rparr>, rpc = Join1,
       t1 = \<lparr>pc = LoopTest, i = 0, reg = 0\<rparr>,
       t2 = \<lparr>pc = LoopTest, i = 0, reg = 0\<rparr>\<rparr> =
      Next \<lparr>counter = \<lparr>SafeCounterAtomic.count = 1000\<rparr>, rpc = Join1,
            t1 = \<lparr>pc = LoopTest, i = 1000, reg = 0\<rparr>,
            t2 = \<lparr>pc = LoopTest, i = 0, reg = 0\<rparr>\<rparr>"
    using Atomic_rounds_T1 [of 0 1000 0 Join1 0 "\<lparr>pc = LoopTest, i = 0, reg = 0\<rparr>"] by simp
  have c: "exec runThreadsAtomic_step [Thread T1]
      \<lparr>counter = \<lparr>SafeCounterAtomic.count = 1000\<rparr>, rpc = Join1,
       t1 = \<lparr>pc = LoopTest, i = 1000, reg = 0\<rparr>,
       t2 = \<lparr>pc = LoopTest, i = 0, reg = 0\<rparr>\<rparr> =
      Next \<lparr>counter = \<lparr>SafeCounterAtomic.count = 1000\<rparr>, rpc = Join1,
            t1 = \<lparr>pc = Finished, i = 1000, reg = 0\<rparr>,
            t2 = \<lparr>pc = LoopTest, i = 0, reg = 0\<rparr>\<rparr>"
    by (simp add: defs)
  have d: "exec runThreadsAtomic_step (concat (replicate 1000 (replicate 3 (Thread T2))))
      \<lparr>counter = \<lparr>SafeCounterAtomic.count = 1000\<rparr>, rpc = Join1,
       t1 = \<lparr>pc = Finished, i = 1000, reg = 0\<rparr>,
       t2 = \<lparr>pc = LoopTest, i = 0, reg = 0\<rparr>\<rparr> =
      Next \<lparr>counter = \<lparr>SafeCounterAtomic.count = 2000\<rparr>, rpc = Join1,
            t1 = \<lparr>pc = Finished, i = 1000, reg = 0\<rparr>,
            t2 = \<lparr>pc = LoopTest, i = 1000, reg = 0\<rparr>\<rparr>"
    using Atomic_rounds_T2 [of 0 1000 1000 Join1 "\<lparr>pc = Finished, i = 1000, reg = 0\<rparr>" 0] by simp
  have e: "exec runThreadsAtomic_step [Thread T2, Main, Main]
      \<lparr>counter = \<lparr>SafeCounterAtomic.count = 2000\<rparr>, rpc = Join1,
       t1 = \<lparr>pc = Finished, i = 1000, reg = 0\<rparr>,
       t2 = \<lparr>pc = LoopTest, i = 1000, reg = 0\<rparr>\<rparr> =
      Next \<lparr>counter = \<lparr>SafeCounterAtomic.count = 2000\<rparr>, rpc = Returned,
            t1 = \<lparr>pc = Finished, i = 1000, reg = 0\<rparr>,
            t2 = \<lparr>pc = Finished, i = 1000, reg = 0\<rparr>\<rparr>"
    by (simp add: defs)
  have sched: "sequential 3 = [Main, Main] @ concat (replicate 1000 (replicate 3 (Thread T1)))
      @ [Thread T1] @ concat (replicate 1000 (replicate 3 (Thread T2))) @ [Thread T2, Main, Main]"
    by (simp add: sequential_def solo_def)
  show ?thesis
    unfolding sched by (simp only: exec_append a b c d e result.case)
qed

subsection \<open>What a returned call tells about the run\<close>

lemma returned_Next:
  "returned r = Next c \<longleftrightarrow> (\<exists>s. r = Next s \<and> rpc s = Returned \<and> counter s = c)"
  by (cases r) (auto simp: returned_def)

lemma returned_Fault: "returned r = Fault e \<longleftrightarrow> r = Fault e"
  by (cases r) (auto simp: returned_def)

lemma Unsafe_reach:
  assumes "exec runThreadsUnsafe_step sched (enter UnsafeCounter_new) = Next s"
  shows "inv_Unsafe s"
proof (rule exec_invariant [where P = inv_Unsafe and step = runThreadsUnsafe_step
      and s = "enter UnsafeCounter_new" and sched = sched])
  show "inv_Unsafe (enter UnsafeCounter_new)" by (rule inv_Unsafe_enter)
  show "exec runThreadsUnsafe_step sched (enter UnsafeCounter_new) = Next s" by (rule assms)
qed (rule inv_Unsafe_step)

lemma Unsafe_exec_no_fault:
  "exec runThreadsUnsafe_step sched (enter UnsafeCounter_new) \<noteq> Fault e"
proof (rule exec_no_fault [where P = inv_Unsafe and step = runThreadsUnsafe_step])
  show "inv_Unsafe (enter UnsafeCounter_new)" by (rule inv_Unsafe_enter)
qed (rule inv_Unsafe_step, assumption+, rule Unsafe_no_fault)

lemma Safe_reach:
  assumes "exec runThreadsSafe_step sched (enter SafeCounterOnlyMutex_new) = Next s"
  shows "inv_Safe s"
proof (rule exec_invariant [where P = inv_Safe and step = runThreadsSafe_step
      and s = "enter SafeCounterOnlyMutex_new" and sched = sched])
  show "inv_Safe (enter SafeCounterOnlyMutex_new)" by (rule inv_Safe_enter)
  show "exec runThreadsSafe_step sched (enter SafeCounterOnlyMutex_new) = Next s" by (rule assms)
qed (rule inv_Safe_step)

lemma Safe_exec_no_fault:
  "exec runThreadsSafe_step sched (enter SafeCounterOnlyMutex_new) \<noteq> Fault e"
proof (rule exec_no_fault [where P = inv_Safe and step = runThreadsSafe_step])
  show "inv_Safe (enter SafeCounterOnlyMutex_new)" by (rule inv_Safe_enter)
qed (rule inv_Safe_step, assumption+, rule Safe_no_fault)

lemma Atomic_reach:
  assumes "exec runThreadsAtomic_step sched (enter SafeCounterAtomic_new) = Next s"
  shows "inv_Atomic s"
proof (rule exec_invariant [where P = inv_Atomic and step = runThreadsAtomic_step
      and s = "enter SafeCounterAtomic_new" and sched = sched])
  show "inv_Atomic (enter SafeCounterAtomic_new)" by (rule inv_Atomic_enter)
  show "exec runThreadsAtomic_step sched (enter SafeCounterAtomic_new) = Next s" by (rule assms)
qed (rule inv_Atomic_step)

lemma Atomic_exec_no_fault:
  "exec runThreadsAtomic_step sched (enter SafeCounterAtomic_new) \<noteq> Fault e"
proof (rule exec_no_fault [where P = inv_Atomic and step = runThreadsAtomic_step])
  show "inv_Atomic (enter SafeCounterAtomic_new)" by (rule inv_Atomic_enter)
qed (rule inv_Atomic_step, assumption+, rule Atomic_no_fault)

lemma join_inv_Returned:
  "join_inv Returned w1 w2 \<longleftrightarrow> pc w1 = Finished \<and> pc w2 = Finished"
  by (simp add: join_inv_def)

lemma Unsafe_final:
  assumes "inv_Unsafe s" and "rpc s = Returned"
  shows "pc (t1 s) = Finished \<and> pc (t2 s) = Finished
    \<and> 1 \<le> sint (UnsafeCounter.count (counter s)) \<and> sint (UnsafeCounter.count (counter s)) \<le> 2000"
proof -
  from assms have f: "pc (t1 s) = Finished" "pc (t2 s) = Finished"
    and l: "loop_inv (t1 s)" "loop_inv (t2 s)"
    by (simp_all add: inv_Unsafe_def join_inv_Returned)
  from loop_inv_Finished [OF l(1) f(1)] loop_inv_Finished [OF l(2) f(2)] assms(1) f
  show ?thesis by (simp add: inv_Unsafe_def)
qed

lemma Safe_final:
  assumes "inv_Safe s" and "rpc s = Returned"
  shows "pc (t1 s) = Finished \<and> pc (t2 s) = Finished
    \<and> sint (SafeCounterOnlyMutex.count (counter s)) = 2000 \<and> mtx (counter s) = Unlocked"
proof -
  from assms have f: "pc (t1 s) = Finished" "pc (t2 s) = Finished"
    and l: "loop_inv (t1 s)" "loop_inv (t2 s)"
    by (simp_all add: inv_Safe_def join_inv_Returned)
  from f have "\<not> in_cs (t1 s)" "\<not> in_cs (t2 s)" by (simp_all add: in_cs_def)
  with assms(1) have "mtx (counter s) = Unlocked"
    by (cases "mtx (counter s)") (simp_all add: inv_Safe_def)
  with loop_inv_Finished [OF l(1) f(1)] loop_inv_Finished [OF l(2) f(2)] assms(1) f
  show ?thesis by (simp add: inv_Safe_def)
qed

lemma Atomic_final:
  assumes "inv_Atomic s" and "rpc s = Returned"
  shows "pc (t1 s) = Finished \<and> pc (t2 s) = Finished
    \<and> sint (SafeCounterAtomic.count (counter s)) = 2000"
proof -
  from assms have f: "pc (t1 s) = Finished" "pc (t2 s) = Finished"
    and l: "loop_inv (t1 s)" "loop_inv (t2 s)"
    by (simp_all add: inv_Atomic_def join_inv_Returned)
  from loop_inv_Finished [OF l(1) f(1)] loop_inv_Finished [OF l(2) f(2)] assms(1) f
  show ?thesis by (simp add: inv_Atomic_def)
qed

lemma runThreadsUnsafe_range:
  "runThreadsUnsafe sched UnsafeCounter_new = Next c \<Longrightarrow>
   1 \<le> sint (UnsafeCounter.count c) \<and> sint (UnsafeCounter.count c) \<le> 2000"
  by (auto simp: runThreadsUnsafe_def returned_Next dest!: Unsafe_reach dest: Unsafe_final)

lemma runThreadsSafe_total:
  "runThreadsSafe sched SafeCounterOnlyMutex_new = Next c \<Longrightarrow>
   sint (SafeCounterOnlyMutex.count c) = 2000 \<and> mtx c = Unlocked"
  by (auto simp: runThreadsSafe_def returned_Next dest!: Safe_reach dest: Safe_final)

lemma runThreadsAtomic_total:
  "runThreadsAtomic sched SafeCounterAtomic_new = Next c \<Longrightarrow> sint (SafeCounterAtomic.count c) = 2000"
  by (auto simp: runThreadsAtomic_def returned_Next dest!: Atomic_reach dest: Atomic_final)

lemma runThreads_no_fault:
  "runThreadsUnsafe sched UnsafeCounter_new \<noteq> Fault e"
  "runThreadsSafe sched SafeCounterOnlyMutex_new \<noteq> Fault e"
  "runThreadsAtomic sched SafeCounterAtomic_new \<noteq> Fault e"
  by (simp_all add: runThreadsUnsafe_def runThreadsSafe_def runThreadsAtomic_def returned_Fault
      Unsafe_exec_no_fault Safe_exec_no_fault Atomic_exec_no_fault)

lemma runThreads_sequential:
  "runThreadsUnsafe (sequential 4) UnsafeCounter_new = Next \<lparr>UnsafeCounter.count = 2000\<rparr>"
  "runThreadsUnsafe lost_update UnsafeCounter_new = Next \<lparr>UnsafeCounter.count = 1000\<rparr>"
  "runThreadsSafe (sequential 6) SafeCounterOnlyMutex_new =
     Next \<lparr>SafeCounterOnlyMutex.count = 2000, mtx = Unlocked\<rparr>"
  "runThreadsAtomic (sequential 3) SafeCounterAtomic_new = Next \<lparr>SafeCounterAtomic.count = 2000\<rparr>"
  by (simp_all add: runThreadsUnsafe_def runThreadsSafe_def runThreadsAtomic_def returned_def
      exec_sequential_Unsafe exec_lost_update exec_sequential_Safe exec_sequential_Atomic)

subsection \<open>Calls, length and completion of the runs\<close>

lemma entered_idle: "entered e (worker_of t (enter c)) = 0"
  by (cases t) (simp_all add: worker_of_def enter_def idle_def entered_def)

lemma entered_Finished: "loop_inv w \<Longrightarrow> pc w = Finished \<Longrightarrow> entered e w = 1000"
  by (simp add: entered_def loop_inv_def)

lemma Unsafe_calls:
  assumes "exec runThreadsUnsafe_step sched (enter UnsafeCounter_new) = Next s"
    and "rpc s = Returned"
  shows "calls Load runThreadsUnsafe_step t sched (enter UnsafeCounter_new) = 1000"
proof -
  from assms(1) have inv: "inv_Unsafe s" by (rule Unsafe_reach)
  then have "loop_inv (worker_of t s)"
    by (cases t) (simp_all add: worker_of_def inv_Unsafe_def)
  moreover from Unsafe_final [OF inv assms(2)] have "pc (worker_of t s) = Finished"
    by (cases t) (simp_all add: worker_of_def)
  ultimately have "entered Load (worker_of t s) = 1000" by (rule entered_Finished)
  moreover have "int (calls Load runThreadsUnsafe_step t sched (enter UnsafeCounter_new)) =
      entered Load (worker_of t s) - entered Load (worker_of t (enter UnsafeCounter_new))"
  proof (rule exec_calls [where P = inv_Unsafe and step = runThreadsUnsafe_step and entry = Load])
    show "inv_Unsafe (enter UnsafeCounter_new)" by (rule inv_Unsafe_enter)
    show "exec runThreadsUnsafe_step sched (enter UnsafeCounter_new) = Next s" by (rule assms(1))
  qed (rule inv_Unsafe_step Unsafe_entered; assumption)+
  ultimately show ?thesis by (simp add: entered_idle)
qed

lemma Safe_calls:
  assumes "exec runThreadsSafe_step sched (enter SafeCounterOnlyMutex_new) = Next s"
    and "rpc s = Returned"
  shows "calls Lock runThreadsSafe_step t sched (enter SafeCounterOnlyMutex_new) = 1000"
proof -
  from assms(1) have inv: "inv_Safe s" by (rule Safe_reach)
  then have "loop_inv (worker_of t s)"
    by (cases t) (simp_all add: worker_of_def inv_Safe_def)
  moreover from Safe_final [OF inv assms(2)] have "pc (worker_of t s) = Finished"
    by (cases t) (simp_all add: worker_of_def)
  ultimately have "entered Lock (worker_of t s) = 1000" by (rule entered_Finished)
  moreover have "int (calls Lock runThreadsSafe_step t sched (enter SafeCounterOnlyMutex_new)) =
      entered Lock (worker_of t s) - entered Lock (worker_of t (enter SafeCounterOnlyMutex_new))"
  proof (rule exec_calls [where P = inv_Safe and step = runThreadsSafe_step and entry = Lock])
    show "inv_Safe (enter SafeCounterOnlyMutex_new)" by (rule inv_Safe_enter)
    show "exec runThreadsSafe_step sched (enter SafeCounterOnlyMutex_new) = Next s" by (rule assms(1))
  qed (rule inv_Safe_step Safe_entered; assumption)+
  ultimately show ?thesis by (simp add: entered_idle)
qed

lemma Atomic_calls:
  assumes "exec runThreadsAtomic_step sched (enter SafeCounterAtomic_new) = Next s"
    and "rpc s = Returned"
  shows "calls FetchAdd runThreadsAtomic_step t sched (enter SafeCounterAtomic_new) = 1000"
proof -
  from assms(1) have inv: "inv_Atomic s" by (rule Atomic_reach)
  then have "loop_inv (worker_of t s)"
    by (cases t) (simp_all add: worker_of_def inv_Atomic_def)
  moreover from Atomic_final [OF inv assms(2)] have "pc (worker_of t s) = Finished"
    by (cases t) (simp_all add: worker_of_def)
  ultimately have "entered FetchAdd (worker_of t s) = 1000" by (rule entered_Finished)
  moreover have "int (calls FetchAdd runThreadsAtomic_step t sched (enter SafeCounterAtomic_new)) =
      entered FetchAdd (worker_of t s) - entered FetchAdd (worker_of t (enter SafeCounterAtomic_new))"
  proof (rule exec_calls [where P = inv_Atomic and step = runThreadsAtomic_step and entry = FetchAdd])
    show "inv_Atomic (enter SafeCounterAtomic_new)" by (rule inv_Atomic_enter)
    show "exec runThreadsAtomic_step sched (enter SafeCounterAtomic_new) = Next s" by (rule assms(1))
  qed (rule inv_Atomic_step Atomic_entered; assumption)+
  ultimately show ?thesis by (simp add: entered_idle)
qed

lemma steps_left_enter: "pos LoopTest = 0 \<Longrightarrow> steps_left per pos (enter c) = 2 * (per * 1000 + 1) + 4"
  by (simp add: steps_left_def enter_def idle_def remaining_def rank_def)

lemma Unsafe_length:
  assumes "exec runThreadsUnsafe_step sched (enter UnsafeCounter_new) = Next s"
  shows "length sched \<le> 8006"
proof -
  have "steps_left 4 pos_Unsafe s = steps_left 4 pos_Unsafe (enter UnsafeCounter_new) - int (length sched)"
  proof (rule exec_steps [where P = inv_Unsafe and step = runThreadsUnsafe_step
        and m = "steps_left 4 pos_Unsafe"])
    show "inv_Unsafe (enter UnsafeCounter_new)" by (rule inv_Unsafe_enter)
    show "exec runThreadsUnsafe_step sched (enter UnsafeCounter_new) = Next s" by (rule assms)
  qed (rule inv_Unsafe_step Unsafe_steps_left; assumption)+
  with Unsafe_steps_left_nonneg [OF Unsafe_reach [OF assms]] show ?thesis
    by (simp add: steps_left_enter pos_Unsafe_def)
qed

lemma Safe_length:
  assumes "exec runThreadsSafe_step sched (enter SafeCounterOnlyMutex_new) = Next s"
  shows "length sched \<le> 12006"
proof -
  have "steps_left 6 pos_Safe s = steps_left 6 pos_Safe (enter SafeCounterOnlyMutex_new) - int (length sched)"
  proof (rule exec_steps [where P = inv_Safe and step = runThreadsSafe_step
        and m = "steps_left 6 pos_Safe"])
    show "inv_Safe (enter SafeCounterOnlyMutex_new)" by (rule inv_Safe_enter)
    show "exec runThreadsSafe_step sched (enter SafeCounterOnlyMutex_new) = Next s" by (rule assms)
  qed (rule inv_Safe_step Safe_steps_left; assumption)+
  with Safe_steps_left_nonneg [OF Safe_reach [OF assms]] show ?thesis
    by (simp add: steps_left_enter pos_Safe_def)
qed

lemma Atomic_length:
  assumes "exec runThreadsAtomic_step sched (enter SafeCounterAtomic_new) = Next s"
  shows "length sched \<le> 6006"
proof -
  have "steps_left 3 pos_Atomic s = steps_left 3 pos_Atomic (enter SafeCounterAtomic_new) - int (length sched)"
  proof (rule exec_steps [where P = inv_Atomic and step = runThreadsAtomic_step
        and m = "steps_left 3 pos_Atomic"])
    show "inv_Atomic (enter SafeCounterAtomic_new)" by (rule inv_Atomic_enter)
    show "exec runThreadsAtomic_step sched (enter SafeCounterAtomic_new) = Next s" by (rule assms)
  qed (rule inv_Atomic_step Atomic_steps_left; assumption)+
  with Atomic_steps_left_nonneg [OF Atomic_reach [OF assms]] show ?thesis
    by (simp add: steps_left_enter pos_Atomic_def)
qed

lemma Unsafe_extends:
  assumes "exec runThreadsUnsafe_step sched (enter UnsafeCounter_new) = Next s"
  shows "\<exists>sched' s'. exec runThreadsUnsafe_step (sched @ sched') (enter UnsafeCounter_new) = Next s'
    \<and> rpc s' = Returned"
proof -
  have "\<exists>sched' s'. exec runThreadsUnsafe_step sched' s = Next s' \<and> rpc s' = Returned"
  proof (rule exec_completes [where P = inv_Unsafe and step = runThreadsUnsafe_step
        and m = "steps_left 4 pos_Unsafe" and final = "\<lambda>s. rpc s = Returned"])
    show "inv_Unsafe s" by (rule Unsafe_reach [OF assms])
  qed (rule inv_Unsafe_step Unsafe_steps_left Unsafe_progress Unsafe_steps_left_nonneg; assumption)+
  with assms show ?thesis by (auto simp: exec_append)
qed

lemma Safe_extends:
  assumes "exec runThreadsSafe_step sched (enter SafeCounterOnlyMutex_new) = Next s"
  shows "\<exists>sched' s'. exec runThreadsSafe_step (sched @ sched') (enter SafeCounterOnlyMutex_new) = Next s'
    \<and> rpc s' = Returned"
proof -
  have "\<exists>sched' s'. exec runThreadsSafe_step sched' s = Next s' \<and> rpc s' = Returned"
  proof (rule exec_completes [where P = inv_Safe and step = runThreadsSafe_step
        and m = "steps_left 6 pos_Safe" and final = "\<lambda>s. rpc s = Returned"])
    show "inv_Safe s" by (rule Safe_reach [OF assms])
  qed (rule inv_Safe_step Safe_steps_left Safe_progress Safe_steps_left_nonneg; assumption)+
  with assms show ?thesis by (auto simp: exec_append)
qed

lemma Atomic_extends:
  assumes "exec runThreadsAtomic_step sched (enter SafeCounterAtomic_new) = Next s"
  shows "\<exists>sched' s'. exec runThreadsAtomic_step (sched @ sched') (enter SafeCounterAtomic_new) = Next s'
    \<and> rpc s' = Returned"
proof -
  have "\<exists>sched' s'. exec runThreadsAtomic_step sched' s = Next s' \<and> rpc s' = Returned"
  proof (rule exec_completes [where P = inv_Atomic and step = runThreadsAtomic_step
        and m = "steps_left 3 pos_Atomic" and final = "\<lambda>s. rpc s = Returned"])
    show "inv_Atomic s" by (rule Atomic_reach [OF assms])
  qed (rule inv_Atomic_step Atomic_steps_left Atomic_progress Atomic_steps_left_nonneg; assumption)+
  with assms show ?thesis by (auto simp: exec_append)
qed

subsection \<open>main\<close>

lemma main_Next:
  "main sched1 sched2 sched3 = Next (out, code) \<longleftrightarrow>
     (\<exists>u m a. runThreadsUnsafe sched1 UnsafeCounter_new = Next u
        \<and> runThreadsSafe sched2 SafeCounterOnlyMutex_new = Next m
        \<and> runThreadsAtomic sched3 SafeCounterAtomic_new = Next a
        \<and> out = [banner,
                  report ''Unsafe Counter'' (UnsafeCounter.count u),
                  report ''Safe Counter (Mutex)'' (SafeCounterOnlyMutex.count m),
                  report ''Safe Counter (Atomic)'' (SafeCounterAtomic.count a)]
        \<and> code = 0)"
  by (auto simp: main_def split: result.splits)

lemma main_no_fault: "main sched1 sched2 sched3 \<noteq> Fault e"
  by (simp add: main_def runThreads_no_fault split: result.splits)

lemma show_int_2000: "show_int 2000 = ''2000''"
  by (simp add: show_int_def)

lemma report_2000: "sint v = 2000 \<Longrightarrow> report label v = label @ '' Value (Expected 2000): 2000''"
  by (simp add: report_def show_int_2000)

lemma main_sequential:
  "main (sequential 4) (sequential 6) (sequential 3) =
     Next ([''--- C++ Concurrency & Thread Safety Demo ---'',
            ''Unsafe Counter Value (Expected 2000): 2000'',
            ''Safe Counter (Mutex) Value (Expected 2000): 2000'',
            ''Safe Counter (Atomic) Value (Expected 2000): 2000''], 0)"
  by (simp add: main_def runThreads_sequential banner_def report_2000)

section \<open>The claims\<close>

subsection \<open>The counter classes, one call at a time\<close>




text \<open>
  C10 (as amended).  Below \<open>INT_MAX\<close> (and, for \<open>SafeCounterOnlyMutex\<close>, with the
  mutex free) the three \<open>increment\<close> methods map the value \<open>v\<close> to \<open>v + 1\<close>, so for
  every \<open>n \<le> 2^31 - 1\<close>, \<open>n\<close> calls in sequence on a fresh counter yield the value
  \<open>n\<close> in all three classes.
\<close>

theorem sequential_increments_agree:
  assumes "n \<le> 2147483647"
  shows "(sint (UnsafeCounter.count u) < 2147483647 \<longrightarrow>
            UnsafeCounter_increment u = Next (u\<lparr>UnsafeCounter.count := UnsafeCounter.count u + 1\<rparr>))
       \<and> (sint (SafeCounterOnlyMutex.count m) < 2147483647 \<and> mtx m = Unlocked \<longrightarrow>
            SafeCounterOnlyMutex_increment m
              = Next (m\<lparr>SafeCounterOnlyMutex.count := SafeCounterOnlyMutex.count m + 1\<rparr>))
       \<and> SafeCounterAtomic_increment a
            = a\<lparr>SafeCounterAtomic.count := SafeCounterAtomic.count a + 1\<rparr>
       \<and> repeat n UnsafeCounter_increment UnsafeCounter_new = Next \<lparr>UnsafeCounter.count = of_nat n\<rparr>
       \<and> repeat n SafeCounterOnlyMutex_increment SafeCounterOnlyMutex_new =
           Next \<lparr>SafeCounterOnlyMutex.count = of_nat n, mtx = Unlocked\<rparr>
       \<and> (SafeCounterAtomic_increment ^^ n) SafeCounterAtomic_new = \<lparr>SafeCounterAtomic.count = of_nat n\<rparr>
       \<and> sint (of_nat n :: cint) = int n"
  using assms
  by (simp add: repeat_UnsafeCounter_increment repeat_SafeCounterOnlyMutex_increment
      funpow_SafeCounterAtomic_increment sint_of_nat_small
      UnsafeCounter_new_def SafeCounterOnlyMutex_new_def SafeCounterAtomic_new_def
      UnsafeCounter_increment_def SafeCounterOnlyMutex_increment_def SafeCounterAtomic_increment_def
      incr_int_small)

theorem sequential_increments_agree_witness:
  "(3 :: nat) \<le> 2147483647
   \<and> sint (UnsafeCounter.count \<lparr>UnsafeCounter.count = 7\<rparr>) < 2147483647
   \<and> UnsafeCounter_increment \<lparr>UnsafeCounter.count = 7\<rparr> = Next \<lparr>UnsafeCounter.count = 8\<rparr>
   \<and> SafeCounterOnlyMutex_increment \<lparr>SafeCounterOnlyMutex.count = 7, mtx = Unlocked\<rparr>
       = Next \<lparr>SafeCounterOnlyMutex.count = 8, mtx = Unlocked\<rparr>
   \<and> repeat 3 UnsafeCounter_increment UnsafeCounter_new = Next \<lparr>UnsafeCounter.count = 3\<rparr>
   \<and> repeat 3 SafeCounterOnlyMutex_increment SafeCounterOnlyMutex_new =
       Next \<lparr>SafeCounterOnlyMutex.count = 3, mtx = Unlocked\<rparr>
   \<and> (SafeCounterAtomic_increment ^^ 3) SafeCounterAtomic_new = \<lparr>SafeCounterAtomic.count = 3\<rparr>
   \<and> sint (3 :: cint) = 3"
  using sequential_increments_agree
    [of 3 "\<lparr>UnsafeCounter.count = 7\<rparr>" "\<lparr>SafeCounterOnlyMutex.count = 7, mtx = Unlocked\<rparr>"]
  by simp

text \<open>
  C10 as stated fails at \<open>n = 2^31\<close>: the last increment overflows, which is
  undefined for the two \<open>int\<close> counters, and leaves \<open>INT_MIN\<close>, not \<open>n\<close>, in the
  atomic one.
\<close>

theorem sequential_increments_overflow:
  "repeat 2147483648 UnsafeCounter_increment UnsafeCounter_new = Fault SignedOverflow
   \<and> repeat 2147483648 SafeCounterOnlyMutex_increment SafeCounterOnlyMutex_new = Fault SignedOverflow
   \<and> sint (SafeCounterAtomic.count ((SafeCounterAtomic_increment ^^ 2147483648) SafeCounterAtomic_new))
       = - 2147483648"
proof -
  have u: "repeat 2147483647 UnsafeCounter_increment UnsafeCounter_new
      = Next \<lparr>UnsafeCounter.count = 2147483647\<rparr>"
    using repeat_UnsafeCounter_increment [of UnsafeCounter_new 2147483647]
    by (simp add: UnsafeCounter_new_def)
  have m: "repeat 2147483647 SafeCounterOnlyMutex_increment SafeCounterOnlyMutex_new
      = Next \<lparr>SafeCounterOnlyMutex.count = 2147483647, mtx = Unlocked\<rparr>"
    using repeat_SafeCounterOnlyMutex_increment [of SafeCounterOnlyMutex_new 2147483647]
    by (simp add: SafeCounterOnlyMutex_new_def)
  have "repeat (2147483647 + 1) UnsafeCounter_increment UnsafeCounter_new = Fault SignedOverflow"
    unfolding repeat_add u
    by (simp add: UnsafeCounter_increment_def incr_int_def INT_MAX_def)
  moreover
  have "repeat (2147483647 + 1) SafeCounterOnlyMutex_increment SafeCounterOnlyMutex_new = Fault SignedOverflow"
    unfolding repeat_add m
    by (simp add: SafeCounterOnlyMutex_increment_def incr_int_def INT_MAX_def)
  ultimately show ?thesis
    by (simp add: funpow_SafeCounterAtomic_increment SafeCounterAtomic_new_def)
qed

subsection \<open>The runs of the two synchronised counters\<close>

text \<open>
  C1.  Whatever the schedule, when \<open>runThreadsSafe\<close> or \<open>runThreadsAtomic\<close>, called
  on a fresh counter, has returned (both threads joined), \<open>count\<close> is exactly 2000;
  and no schedule leads to undefined behaviour.
\<close>

theorem synchronised_counters_reach_2000:
  "(runThreadsSafe sched SafeCounterOnlyMutex_new = Next m \<longrightarrow>
      sint (SafeCounterOnlyMutex.count m) = 2000)
   \<and> (runThreadsAtomic sched' SafeCounterAtomic_new = Next a \<longrightarrow>
      sint (SafeCounterAtomic.count a) = 2000)
   \<and> runThreadsSafe sched SafeCounterOnlyMutex_new \<noteq> Fault e
   \<and> runThreadsAtomic sched' SafeCounterAtomic_new \<noteq> Fault e"
  using runThreadsSafe_total [of sched m] runThreadsAtomic_total [of sched' a]
  by (simp add: runThreads_no_fault)

theorem synchronised_counters_reach_2000_witness:
  "runThreadsSafe (sequential 6) SafeCounterOnlyMutex_new =
      Next \<lparr>SafeCounterOnlyMutex.count = 2000, mtx = Unlocked\<rparr>
   \<and> sint (SafeCounterOnlyMutex.count \<lparr>SafeCounterOnlyMutex.count = 2000, mtx = Unlocked\<rparr>) = 2000
   \<and> runThreadsAtomic (sequential 3) SafeCounterAtomic_new = Next \<lparr>SafeCounterAtomic.count = 2000\<rparr>
   \<and> sint (SafeCounterAtomic.count \<lparr>SafeCounterAtomic.count = 2000\<rparr>) = 2000"
  using synchronised_counters_reach_2000
    [of "sequential 6" "\<lparr>SafeCounterOnlyMutex.count = 2000, mtx = Unlocked\<rparr>"
        "sequential 3" "\<lparr>SafeCounterAtomic.count = 2000\<rparr>" SignedOverflow]
  by (simp add: runThreads_sequential)

subsection \<open>The runs of the unprotected counter\<close>

text \<open>
  C2.  Whatever the schedule, when \<open>runThreadsUnsafe\<close>, called on a fresh counter,
  has returned, \<open>count\<close> lies between 1 and 2000 (so it is neither negative nor
  above 2000); and the value is not the same for all schedules: some other
  schedule returns a different one.  Here \<open>count++\<close> is a read and a later write
  of \<open>count\<close>, each one step, interleaved in any order with the steps of the other
  thread.
\<close>

theorem unprotected_counter_range:
  assumes "runThreadsUnsafe sched UnsafeCounter_new = Next c"
  shows "1 \<le> sint (UnsafeCounter.count c) \<and> sint (UnsafeCounter.count c) \<le> 2000
    \<and> (\<exists>sched' c'. runThreadsUnsafe sched' UnsafeCounter_new = Next c'
          \<and> UnsafeCounter.count c' \<noteq> UnsafeCounter.count c)"
proof (cases "UnsafeCounter.count c = 2000")
  case True
  with runThreads_sequential(2) have "runThreadsUnsafe lost_update UnsafeCounter_new
      = Next \<lparr>UnsafeCounter.count = 1000\<rparr>
    \<and> UnsafeCounter.count \<lparr>UnsafeCounter.count = 1000\<rparr> \<noteq> UnsafeCounter.count c"
    by simp
  with runThreadsUnsafe_range [OF assms] show ?thesis by blast
next
  case False
  with runThreads_sequential(1) have "runThreadsUnsafe (sequential 4) UnsafeCounter_new
      = Next \<lparr>UnsafeCounter.count = 2000\<rparr>
    \<and> UnsafeCounter.count \<lparr>UnsafeCounter.count = 2000\<rparr> \<noteq> UnsafeCounter.count c"
    by simp
  with runThreadsUnsafe_range [OF assms] show ?thesis by blast
qed

theorem unprotected_counter_range_witness:
  "runThreadsUnsafe lost_update UnsafeCounter_new = Next \<lparr>UnsafeCounter.count = 1000\<rparr>
   \<and> 1 \<le> sint (1000 :: cint) \<and> sint (1000 :: cint) \<le> 2000
   \<and> (\<exists>sched' c'. runThreadsUnsafe sched' UnsafeCounter_new = Next c'
          \<and> UnsafeCounter.count c' \<noteq> 1000)"
  using unprotected_counter_range [of lost_update "\<lparr>UnsafeCounter.count = 1000\<rparr>"]
  by (simp add: runThreads_sequential)

subsection \<open>The shape of a run\<close>

text \<open>
  C3.  Each of the three \<open>runThreads\<close> functions, called on a fresh counter
  (\<open>count = 0\<close>), has returned only when both threads have finished; and on the
  way each of the two threads has started exactly 1000 calls of \<open>increment\<close>.
  The counter handed back is the one the two threads shared.
\<close>

theorem runThreads_two_workers_1000_calls:
  "(runThreadsUnsafe su UnsafeCounter_new = Next u \<longrightarrow>
      (\<exists>s. exec runThreadsUnsafe_step su (enter UnsafeCounter_new) = Next s \<and> counter s = u
         \<and> pc (t1 s) = Finished \<and> pc (t2 s) = Finished)
      \<and> calls Load runThreadsUnsafe_step T1 su (enter UnsafeCounter_new) = 1000
      \<and> calls Load runThreadsUnsafe_step T2 su (enter UnsafeCounter_new) = 1000)
   \<and> (runThreadsSafe sm SafeCounterOnlyMutex_new = Next m \<longrightarrow>
      (\<exists>s. exec runThreadsSafe_step sm (enter SafeCounterOnlyMutex_new) = Next s \<and> counter s = m
         \<and> pc (t1 s) = Finished \<and> pc (t2 s) = Finished)
      \<and> calls Lock runThreadsSafe_step T1 sm (enter SafeCounterOnlyMutex_new) = 1000
      \<and> calls Lock runThreadsSafe_step T2 sm (enter SafeCounterOnlyMutex_new) = 1000)
   \<and> (runThreadsAtomic sa SafeCounterAtomic_new = Next a \<longrightarrow>
      (\<exists>s. exec runThreadsAtomic_step sa (enter SafeCounterAtomic_new) = Next s \<and> counter s = a
         \<and> pc (t1 s) = Finished \<and> pc (t2 s) = Finished)
      \<and> calls FetchAdd runThreadsAtomic_step T1 sa (enter SafeCounterAtomic_new) = 1000
      \<and> calls FetchAdd runThreadsAtomic_step T2 sa (enter SafeCounterAtomic_new) = 1000)
   \<and> UnsafeCounter.count (counter (enter UnsafeCounter_new)) = 0
   \<and> SafeCounterOnlyMutex.count (counter (enter SafeCounterOnlyMutex_new)) = 0
   \<and> SafeCounterAtomic.count (counter (enter SafeCounterAtomic_new)) = 0"
proof -
  have "(\<exists>s. exec runThreadsUnsafe_step su (enter UnsafeCounter_new) = Next s \<and> counter s = u
         \<and> pc (t1 s) = Finished \<and> pc (t2 s) = Finished)
      \<and> calls Load runThreadsUnsafe_step T1 su (enter UnsafeCounter_new) = 1000
      \<and> calls Load runThreadsUnsafe_step T2 su (enter UnsafeCounter_new) = 1000"
    if "runThreadsUnsafe su UnsafeCounter_new = Next u"
  proof -
    from that obtain s where s: "exec runThreadsUnsafe_step su (enter UnsafeCounter_new) = Next s"
      "rpc s = Returned" "counter s = u"
      by (auto simp: runThreadsUnsafe_def returned_Next)
    from Unsafe_final [OF Unsafe_reach [OF s(1)] s(2)] s Unsafe_calls [OF s(1,2)]
    show ?thesis by blast
  qed
  moreover
  have "(\<exists>s. exec runThreadsSafe_step sm (enter SafeCounterOnlyMutex_new) = Next s \<and> counter s = m
         \<and> pc (t1 s) = Finished \<and> pc (t2 s) = Finished)
      \<and> calls Lock runThreadsSafe_step T1 sm (enter SafeCounterOnlyMutex_new) = 1000
      \<and> calls Lock runThreadsSafe_step T2 sm (enter SafeCounterOnlyMutex_new) = 1000"
    if "runThreadsSafe sm SafeCounterOnlyMutex_new = Next m"
  proof -
    from that obtain s where s: "exec runThreadsSafe_step sm (enter SafeCounterOnlyMutex_new) = Next s"
      "rpc s = Returned" "counter s = m"
      by (auto simp: runThreadsSafe_def returned_Next)
    from Safe_final [OF Safe_reach [OF s(1)] s(2)] s Safe_calls [OF s(1,2)]
    show ?thesis by blast
  qed
  moreover
  have "(\<exists>s. exec runThreadsAtomic_step sa (enter SafeCounterAtomic_new) = Next s \<and> counter s = a
         \<and> pc (t1 s) = Finished \<and> pc (t2 s) = Finished)
      \<and> calls FetchAdd runThreadsAtomic_step T1 sa (enter SafeCounterAtomic_new) = 1000
      \<and> calls FetchAdd runThreadsAtomic_step T2 sa (enter SafeCounterAtomic_new) = 1000"
    if "runThreadsAtomic sa SafeCounterAtomic_new = Next a"
  proof -
    from that obtain s where s: "exec runThreadsAtomic_step sa (enter SafeCounterAtomic_new) = Next s"
      "rpc s = Returned" "counter s = a"
      by (auto simp: runThreadsAtomic_def returned_Next)
    from Atomic_final [OF Atomic_reach [OF s(1)] s(2)] s Atomic_calls [OF s(1,2)]
    show ?thesis by blast
  qed
  ultimately show ?thesis
    by (simp add: enter_def idle_def UnsafeCounter_new_def SafeCounterOnlyMutex_new_def
        SafeCounterAtomic_new_def)
qed

theorem runThreads_two_workers_1000_calls_witness:
  "runThreadsUnsafe (sequential 4) UnsafeCounter_new = Next \<lparr>UnsafeCounter.count = 2000\<rparr>
   \<and> runThreadsSafe (sequential 6) SafeCounterOnlyMutex_new =
       Next \<lparr>SafeCounterOnlyMutex.count = 2000, mtx = Unlocked\<rparr>
   \<and> runThreadsAtomic (sequential 3) SafeCounterAtomic_new = Next \<lparr>SafeCounterAtomic.count = 2000\<rparr>
   \<and> calls Load runThreadsUnsafe_step T1 (sequential 4) (enter UnsafeCounter_new) = 1000
   \<and> calls Lock runThreadsSafe_step T2 (sequential 6) (enter SafeCounterOnlyMutex_new) = 1000
   \<and> calls FetchAdd runThreadsAtomic_step T1 (sequential 3) (enter SafeCounterAtomic_new) = 1000"
  using runThreads_two_workers_1000_calls
    [of "sequential 4" "\<lparr>UnsafeCounter.count = 2000\<rparr>"
        "sequential 6" "\<lparr>SafeCounterOnlyMutex.count = 2000, mtx = Unlocked\<rparr>"
        "sequential 3" "\<lparr>SafeCounterAtomic.count = 2000\<rparr>"]
  by (simp add: runThreads_sequential)

subsection \<open>The mutex\<close>



subsection \<open>The program\<close>

text \<open>
  C6.  When \<open>main\<close> has returned, each of the three values it printed is the value
  left by the run of its own demonstration on its own freshly constructed counter,
  under that run's schedule alone: whatever the schedules of the other two
  demonstrations, the line of a demonstration is the same.
\<close>

theorem demonstrations_share_no_state:
  assumes "main su sm sa = Next (out, code)"
  shows "(\<exists>u m a. runThreadsUnsafe su UnsafeCounter_new = Next u
            \<and> runThreadsSafe sm SafeCounterOnlyMutex_new = Next m
            \<and> runThreadsAtomic sa SafeCounterAtomic_new = Next a
            \<and> out ! 1 = report ''Unsafe Counter'' (UnsafeCounter.count u)
            \<and> out ! 2 = report ''Safe Counter (Mutex)'' (SafeCounterOnlyMutex.count m)
            \<and> out ! 3 = report ''Safe Counter (Atomic)'' (SafeCounterAtomic.count a))
    \<and> (main su xm xa = Next (outx, codex) \<longrightarrow> outx ! 1 = out ! 1)
    \<and> (main yu sm ya = Next (outy, codey) \<longrightarrow> outy ! 2 = out ! 2)
    \<and> (main zu zm sa = Next (outz, codez) \<longrightarrow> outz ! 3 = out ! 3)"
  using assms by (auto simp: main_Next)

theorem demonstrations_share_no_state_witness:
  "main (sequential 4) (sequential 6) (sequential 3) =
     Next ([''--- C++ Concurrency & Thread Safety Demo ---'',
            ''Unsafe Counter Value (Expected 2000): 2000'',
            ''Safe Counter (Mutex) Value (Expected 2000): 2000'',
            ''Safe Counter (Atomic) Value (Expected 2000): 2000''], 0)
   \<and> main lost_update (sequential 6) (sequential 3) =
     Next ([''--- C++ Concurrency & Thread Safety Demo ---'',
            ''Unsafe Counter Value (Expected 2000): 1000'',
            ''Safe Counter (Mutex) Value (Expected 2000): 2000'',
            ''Safe Counter (Atomic) Value (Expected 2000): 2000''], 0)
   \<and> (\<exists>m. runThreadsSafe (sequential 6) SafeCounterOnlyMutex_new = Next m
          \<and> ''Safe Counter (Mutex) Value (Expected 2000): 2000''
              = report ''Safe Counter (Mutex)'' (SafeCounterOnlyMutex.count m))"
proof -
  let ?out = "[''--- C++ Concurrency & Thread Safety Demo ---'',
            ''Unsafe Counter Value (Expected 2000): 2000'',
            ''Safe Counter (Mutex) Value (Expected 2000): 2000'',
            ''Safe Counter (Atomic) Value (Expected 2000): 2000'']"
  let ?lost = "[''--- C++ Concurrency & Thread Safety Demo ---'',
            ''Unsafe Counter Value (Expected 2000): 1000'',
            ''Safe Counter (Mutex) Value (Expected 2000): 2000'',
            ''Safe Counter (Atomic) Value (Expected 2000): 2000'']"
  have l: "main lost_update (sequential 6) (sequential 3) = Next (?lost, 0)"
    by (simp add: main_def runThreads_sequential banner_def report_2000 report_def show_int_def)
  have "\<exists>m. runThreadsSafe (sequential 6) SafeCounterOnlyMutex_new = Next m
      \<and> ?out ! 2 = report ''Safe Counter (Mutex)'' (SafeCounterOnlyMutex.count m)"
    using demonstrations_share_no_state [where su = "sequential 4" and sm = "sequential 6"
        and sa = "sequential 3" and out = ?out and code = 0
        and xm = "sequential 6" and xa = "sequential 3" and outx = ?out and codex = 0
        and yu = lost_update and ya = "sequential 3" and outy = ?lost and codey = 0
        and zu = lost_update and zm = "sequential 6" and outz = ?lost and codez = 0,
        OF main_sequential]
    by blast
  with l main_sequential show ?thesis by simp
qed

text \<open>
  C7.  When \<open>main\<close> has returned it has written four lines: the banner, and for
  each demonstration, in the order of the program, one line made of the label of
  the class, the text \<open>Value (Expected 2000):\<close> and the value of \<open>count\<close> its run
  left; for the two synchronised counters that value reads 2000.
\<close>

theorem console_output:
  assumes "main sched1 sched2 sched3 = Next (out, code)"
  shows "\<exists>u. runThreadsUnsafe sched1 UnsafeCounter_new = Next u
    \<and> out = [''--- C++ Concurrency & Thread Safety Demo ---'',
             ''Unsafe Counter Value (Expected 2000): '' @ show_int (sint (UnsafeCounter.count u)),
             ''Safe Counter (Mutex) Value (Expected 2000): 2000'',
             ''Safe Counter (Atomic) Value (Expected 2000): 2000'']"
proof -
  from assms obtain u m a where r: "runThreadsUnsafe sched1 UnsafeCounter_new = Next u"
    "runThreadsSafe sched2 SafeCounterOnlyMutex_new = Next m"
    "runThreadsAtomic sched3 SafeCounterAtomic_new = Next a"
    and out: "out = [banner,
                  report ''Unsafe Counter'' (UnsafeCounter.count u),
                  report ''Safe Counter (Mutex)'' (SafeCounterOnlyMutex.count m),
                  report ''Safe Counter (Atomic)'' (SafeCounterAtomic.count a)]"
    by (auto simp: main_Next)
  from runThreadsSafe_total [OF r(2)] runThreadsAtomic_total [OF r(3)] r(1) out
  show ?thesis by (simp add: report_2000 banner_def) (simp add: report_def)
qed

theorem console_output_witness:
  "main lost_update (sequential 6) (sequential 3) =
     Next ([''--- C++ Concurrency & Thread Safety Demo ---'',
            ''Unsafe Counter Value (Expected 2000): 1000'',
            ''Safe Counter (Mutex) Value (Expected 2000): 2000'',
            ''Safe Counter (Atomic) Value (Expected 2000): 2000''], 0)
   \<and> (\<exists>u. runThreadsUnsafe lost_update UnsafeCounter_new = Next u
        \<and> ''Unsafe Counter Value (Expected 2000): 1000''
            = ''Unsafe Counter Value (Expected 2000): '' @ show_int (sint (UnsafeCounter.count u)))"
proof -
  have l: "main lost_update (sequential 6) (sequential 3) =
     Next ([''--- C++ Concurrency & Thread Safety Demo ---'',
            ''Unsafe Counter Value (Expected 2000): 1000'',
            ''Safe Counter (Mutex) Value (Expected 2000): 2000'',
            ''Safe Counter (Atomic) Value (Expected 2000): 2000''], 0)"
    by (simp add: main_def runThreads_sequential banner_def report_2000 report_def show_int_def)
  from console_output [OF l] l show ?thesis by auto
qed

text \<open>
  C8.  \<open>main\<close> takes no argument and has no branch: no schedule leads it to
  undefined behaviour, and whenever it returns the exit code is 0.  It does
  return: a run of each demonstration cannot go on for ever (every schedule that
  can be executed has at most 8006, 12006 and 6006 steps), never reaches undefined
  behaviour, and from wherever it has got to it can be continued until both threads
  are joined, so that no state is a deadlock.
\<close>

theorem harness_runs_to_exit_code_0:
  "main sched1 sched2 sched3 \<noteq> Fault e
   \<and> (main sched1 sched2 sched3 = Next (out, code) \<longrightarrow> code = 0)
   \<and> exec runThreadsUnsafe_step su (enter UnsafeCounter_new) \<noteq> Fault e
   \<and> exec runThreadsSafe_step sm (enter SafeCounterOnlyMutex_new) \<noteq> Fault e
   \<and> exec runThreadsAtomic_step sa (enter SafeCounterAtomic_new) \<noteq> Fault e
   \<and> (exec runThreadsUnsafe_step su (enter UnsafeCounter_new) = Next u \<longrightarrow>
        length su \<le> 8006
        \<and> (\<exists>su' u'. exec runThreadsUnsafe_step (su @ su') (enter UnsafeCounter_new) = Next u'
              \<and> rpc u' = Returned))
   \<and> (exec runThreadsSafe_step sm (enter SafeCounterOnlyMutex_new) = Next m \<longrightarrow>
        length sm \<le> 12006
        \<and> (\<exists>sm' m'. exec runThreadsSafe_step (sm @ sm') (enter SafeCounterOnlyMutex_new) = Next m'
              \<and> rpc m' = Returned))
   \<and> (exec runThreadsAtomic_step sa (enter SafeCounterAtomic_new) = Next a \<longrightarrow>
        length sa \<le> 6006
        \<and> (\<exists>sa' a'. exec runThreadsAtomic_step (sa @ sa') (enter SafeCounterAtomic_new) = Next a'
              \<and> rpc a' = Returned))
   \<and> (\<exists>s1 s2 s3 lines. main s1 s2 s3 = Next (lines, 0))"
proof -
  have "\<exists>s1 s2 s3 lines. main s1 s2 s3 = Next (lines, 0)"
    using main_sequential by blast
  moreover have "main sched1 sched2 sched3 = Next (out, code) \<longrightarrow> code = 0"
    by (auto simp: main_Next)
  ultimately show ?thesis
    using Unsafe_length [of su u] Unsafe_extends [of su u] Safe_length [of sm m]
      Safe_extends [of sm m] Atomic_length [of sa a] Atomic_extends [of sa a]
    by (simp add: main_no_fault Unsafe_exec_no_fault Safe_exec_no_fault Atomic_exec_no_fault)
qed

theorem harness_runs_to_exit_code_0_witness:
  "main (sequential 4) (sequential 6) (sequential 3) =
     Next ([''--- C++ Concurrency & Thread Safety Demo ---'',
            ''Unsafe Counter Value (Expected 2000): 2000'',
            ''Safe Counter (Mutex) Value (Expected 2000): 2000'',
            ''Safe Counter (Atomic) Value (Expected 2000): 2000''], 0)
   \<and> exec runThreadsUnsafe_step [] (enter UnsafeCounter_new) = Next (enter UnsafeCounter_new)
   \<and> exec runThreadsSafe_step [] (enter SafeCounterOnlyMutex_new) = Next (enter SafeCounterOnlyMutex_new)
   \<and> exec runThreadsAtomic_step [] (enter SafeCounterAtomic_new) = Next (enter SafeCounterAtomic_new)
   \<and> (\<exists>su' u'. exec runThreadsUnsafe_step ([] @ su') (enter UnsafeCounter_new) = Next u'
          \<and> rpc u' = Returned)
   \<and> (\<exists>sm' m'. exec runThreadsSafe_step ([] @ sm') (enter SafeCounterOnlyMutex_new) = Next m'
          \<and> rpc m' = Returned)
   \<and> (\<exists>sa' a'. exec runThreadsAtomic_step ([] @ sa') (enter SafeCounterAtomic_new) = Next a'
          \<and> rpc a' = Returned)"
  using harness_runs_to_exit_code_0
    [of "sequential 4" "sequential 6" "sequential 3" SignedOverflow
        "[''--- C++ Concurrency & Thread Safety Demo ---'',
            ''Unsafe Counter Value (Expected 2000): 2000'',
            ''Safe Counter (Mutex) Value (Expected 2000): 2000'',
            ''Safe Counter (Atomic) Value (Expected 2000): 2000'']" 0
        "[]" "[]" "[]" "enter UnsafeCounter_new" "enter SafeCounterOnlyMutex_new"
        "enter SafeCounterAtomic_new"]
    main_sequential
  by simp

end
